theory Spec2Isabelle
  imports Main "HOL-Library.Log_Nat"
begin

section \<open>Errors and generators\<close>

text \<open>
  The notebooks are Python.  An exception is a value of type \<open>error\<close>; a function that
  can raise returns \<open>error + 'a\<close> with \<open>Inl\<close> for the exception.  \<open>StopIteration\<close> is
  not an error here: \<open>next\<close> returns an option and \<open>None\<close> is the end of the sequence.
  \<open>NoSuchObject\<close> has no Python counterpart: it is what the model answers for an
  address that holds no object, which a Python reference never is.
\<close>

datatype error =
    TypeError string
  | ZeroDivisionError
  | OverflowError
  | ValueError
  | FileNotFoundError
  | NoSuchObject

text \<open>
  A generator object is a suspended computation.  Its state is what is left of its body:
  it is finished (\<open>Done\<close>), it is suspended at a \<open>yield\<close> with the value to hand out and
  the rest of the body (\<open>Yield\<close>), or the next step raises (\<open>Raise\<close>).  Every generator of
  the notebooks runs over a finite range, string or file, so the datatype is inductive.
\<close>

datatype 'a gen = Done | Yield 'a "'a gen" | Raise error

text \<open>\<open>next(g)\<close>: the value handed out (or the end, or the exception) and the new state.
  A generator that raised is finished.\<close>

fun gnext :: "'a gen \<Rightarrow> (error + 'a option) \<times> 'a gen" where
  "gnext Done = (Inr None, Done)"
| "gnext (Yield v k) = (Inr (Some v), k)"
| "gnext (Raise e) = (Inl e, Done)"

text \<open>The results of \<open>n\<close> successive calls of \<open>next\<close> on one generator object.\<close>

fun nexts :: "nat \<Rightarrow> 'a gen \<Rightarrow> (error + 'a option) list" where
  "nexts 0 g = []"
| "nexts (Suc n) g = (case gnext g of (r, g') \<Rightarrow> r # nexts n g')"

text \<open>The statement \<open>yield v\<close>.\<close>

definition yield :: "'a \<Rightarrow> 'a gen" where
  "yield v = Yield v Done"

text \<open>Two statements of a generator body, one after the other: the second starts when
  the first has finished; an exception in the first ends the body.\<close>

fun gseq :: "'a gen \<Rightarrow> 'a gen \<Rightarrow> 'a gen" where
  "gseq Done k = k"
| "gseq (Yield v g) k = Yield v (gseq g k)"
| "gseq (Raise e) k = Raise e"

text \<open>\<open>for x in xs: body\<close> in a generator body, over a list of values.\<close>

fun for_list :: "'b list \<Rightarrow> ('b \<Rightarrow> 'a gen) \<Rightarrow> 'a gen" where
  "for_list [] body = Done"
| "for_list (x # xs) body = gseq (body x) (for_list xs body)"

text \<open>\<open>range(n)\<close>: the integers from 0 below \<open>n\<close>, none when \<open>n \<le> 0\<close>.\<close>

definition py_range :: "int \<Rightarrow> int list" where
  "py_range n = [0..n - 1]"

text \<open>\<open>for x in g: body\<close> in a generator body, where \<open>g\<close> is a generator the loop itself
  created (nothing else holds it): each round asks \<open>g\<close> for its next value and runs the
  body on it; the loop ends when \<open>g\<close> does.\<close>

fun for_gen :: "'b gen \<Rightarrow> ('b \<Rightarrow> 'a gen) \<Rightarrow> 'a gen" where
  "for_gen Done body = Done"
| "for_gen (Yield v g) body = gseq (body v) (for_gen g body)"
| "for_gen (Raise e) body = Raise e"

text \<open>\<open>yield from g\<close>: every \<open>next\<close> of the outer generator is the \<open>next\<close> of \<open>g\<close>, until
  \<open>g\<close> is finished.\<close>

fun yield_from :: "'a gen \<Rightarrow> 'a gen" where
  "yield_from Done = Done"
| "yield_from (Yield v g) = Yield v (yield_from g)"
| "yield_from (Raise e) = Raise e"

text \<open>\<open>list(g)\<close> and a \<open>for\<close> loop that consumes a whole generator: all values, in order,
  or the exception that ended it.\<close>

fun drain :: "'a gen \<Rightarrow> error + 'a list" where
  "drain Done = Inr []"
| "drain (Yield v g) = (case drain g of Inl e \<Rightarrow> Inl e | Inr vs \<Rightarrow> Inr (v # vs))"
| "drain (Raise e) = Inl e"

text \<open>A generator no step of which raises.\<close>

fun raises_nothing :: "'a gen \<Rightarrow> bool" where
  "raises_nothing Done = True"
| "raises_nothing (Yield v g) = raises_nothing g"
| "raises_nothing (Raise e) = False"

text \<open>The values a generator yields before it finishes or raises.\<close>

fun yielded :: "'a gen \<Rightarrow> 'a list" where
  "yielded Done = []"
| "yielded (Yield v g) = v # yielded g"
| "yielded (Raise e) = []"

section \<open>Item 33: composing generators\<close>

text \<open>The deltas are Python numbers: \<open>move(4, 5.0)\<close> yields the float \<open>5.0\<close>, \<open>pause\<close>
  yields the int \<open>0\<close>.  The floats of this notebook are literals; no arithmetic is done
  on them.\<close>

datatype pynum = PyInt int | PyFloat rat

text \<open>
\<^verbatim>\<open>
def move(period, speed):
    for _ in range(period):
        yield speed

def pause(delay):
    for _ in range(delay):
        yield 0
\<close>\<close>

definition move :: "int \<Rightarrow> 'a \<Rightarrow> 'a gen" where
  "move period speed = for_list (py_range period) (\<lambda>_. yield speed)"

definition pause :: "int \<Rightarrow> pynum gen" where
  "pause delay = for_list (py_range delay) (\<lambda>_. yield (PyInt 0))"

text \<open>
\<^verbatim>\<open>
def animate():
    for delta in move(4, 5.0):
        yield delta
    for delta in pause(3):
        yield delta
    for delta in move(2, 3.0):
        yield delta
\<close>\<close>

definition animate :: "pynum gen" where
  "animate =
     gseq (for_gen (move 4 (PyFloat 5)) (\<lambda>delta. yield delta))
    (gseq (for_gen (pause 3) (\<lambda>delta. yield delta))
          (for_gen (move 2 (PyFloat 3)) (\<lambda>delta. yield delta)))"

text \<open>
\<^verbatim>\<open>
def animate_composed():
    yield from move(4, 5.0)
    yield from pause(3)
    yield from move(2, 3.0)
\<close>\<close>

definition animate_composed :: "pynum gen" where
  "animate_composed =
     gseq (yield_from (move 4 (PyFloat 5)))
    (gseq (yield_from (pause 3))
          (yield_from (move 2 (PyFloat 3))))"

text \<open>
\<^verbatim>\<open>
def run(func):
    for delta in func():
        render(delta, show=True)
\<close>
  \<open>render\<close> prints its argument; \<open>run\<close> is modelled by the deltas it renders, in order.\<close>

definition run :: "'a gen \<Rightarrow> error + 'a list" where
  "run func = drain func"

text \<open>
\<^verbatim>\<open>
def child():
    for i in range(50_000_000):
        yield i

def slow():
    for i in child():
        yield i

def fast():
    yield from child()
\<close>\<close>

definition child :: "int gen" where
  "child = for_list (py_range 50000000) (\<lambda>i. yield i)"

definition slow :: "int gen" where
  "slow = for_gen child (\<lambda>i. yield i)"

definition fast :: "int gen" where
  "fast = yield_from child"

section \<open>Item 30: generators instead of lists\<close>

text \<open>
  A Python \<open>str\<close> is a sequence of code points; the model's \<open>text\<close> is a list of
  characters, and the functions only compare a letter with the space.
\<^verbatim>\<open>
def index_words(text):
    result = []
    if text:
        result.append(0)
    for index, letter in enumerate(text):
        if letter == ' ':
            result.append(index + 1)
    return result
\<close>\<close>

definition index_words :: "string \<Rightarrow> int list" where
  "index_words text =
     (let result = [];
          result = (if text \<noteq> [] then result @ [0] else result)
      in foldl (\<lambda>result (index, letter).
                  if letter = CHR '' '' then result @ [int index + 1] else result)
           result (enumerate 0 text))"

text \<open>
\<^verbatim>\<open>
def index_words_iter(text):
    if text:
        yield 0
    for index, letter in enumerate(text):
        if letter == ' ':
            yield index + 1
\<close>\<close>

definition index_words_iter :: "string \<Rightarrow> int gen" where
  "index_words_iter text =
     gseq (if text \<noteq> [] then yield 0 else Done)
          (for_list (enumerate 0 text)
             (\<lambda>(index, letter). if letter = CHR '' '' then yield (int index + 1) else Done))"

section \<open>Objects, references and the iterator protocol\<close>

text \<open>
  Item 31 turns on object identity (\<open>iter(numbers) is numbers\<close>) and on the state an
  iterator keeps between calls, so objects live in a store.  A Python value is a
  reference, modelled by the address of its object; the store is the list of all
  objects made so far, an address is a position in it, and a new object is appended.
  Nothing is ever freed, and the lists of the notebook are never changed once built.

  \<^item> \<open>ListObj xs\<close>: a list.
  \<^item> \<open>ListIterObj seq index\<close>: the iterator \<open>iter\<close> makes for a list, as CPython keeps it:
    the list it walks (\<open>it_seq\<close>, dropped once the end was reported) and the position
    (\<open>it_index\<close>).
  \<^item> \<open>GenObj g\<close>: a generator object, with what is left of its body.
  \<^item> \<open>ReadValuesObj data_path\<close>: an instance of the notebook's class \<open>ReadValues\<close>.
\<close>

type_synonym addr = nat

datatype obj =
    ListObj "int list"
  | ListIterObj "addr option" nat
  | GenObj "int gen"
  | ReadValuesObj string

type_synonym heap = "obj list"

definition lookup :: "heap \<Rightarrow> addr \<Rightarrow> obj option" where
  "lookup h a = (if a < length h then Some (h ! a) else None)"

definition alloc :: "heap \<Rightarrow> obj \<Rightarrow> addr \<times> heap" where
  "alloc h ob = (length h, h @ [ob])"

text \<open>
  What the notebook takes from outside: the files (\<open>open(path)\<close> gives the lines of the
  file, or fails), and the built-in \<open>int\<close> on a line of text.  Both are parameters of the
  model; the files do not change while a function runs.
\<close>

record env =
  files :: "string \<Rightarrow> string list option"
  int_of :: "string \<Rightarrow> error + int"

text \<open>
\<^verbatim>\<open>
def read_values(data_path):
    with open(data_path) as f:
        for line in f:
            yield int(line)

class ReadValues:
    def __init__(self, data_path):
        self.data_path = data_path

    def __iter__(self):
        with open(self.data_path) as f:
            for line in f:
                yield int(line)
\<close>
  The body of the generator function \<open>read_values\<close>, which is also the body of
  \<open>ReadValues.__iter__\<close>.  Nothing runs before the first \<open>next\<close>, so a file that cannot be
  opened is the first step raising.\<close>

definition read_values :: "env \<Rightarrow> string \<Rightarrow> int gen" where
  "read_values w data_path =
     (case files w data_path of
        None \<Rightarrow> Raise FileNotFoundError
      | Some f \<Rightarrow>
          for_list f (\<lambda>line. case int_of w line of Inl e \<Rightarrow> Raise e | Inr n \<Rightarrow> yield n))"

text \<open>\<open>iter(x)\<close>: a list answers with a new list iterator at its start, a \<open>ReadValues\<close>
  instance with a new generator object running \<open>__iter__\<close>; an iterator (a list iterator
  or a generator object) answers with itself.\<close>

definition py_iter :: "env \<Rightarrow> heap \<Rightarrow> addr \<Rightarrow> (error + addr) \<times> heap" where
  "py_iter w h x =
     (case lookup h x of
        None \<Rightarrow> (Inl NoSuchObject, h)
      | Some (ListObj xs) \<Rightarrow> (case alloc h (ListIterObj (Some x) 0) of (it, h') \<Rightarrow> (Inr it, h'))
      | Some (ListIterObj s i) \<Rightarrow> (Inr x, h)
      | Some (GenObj g) \<Rightarrow> (Inr x, h)
      | Some (ReadValuesObj data_path) \<Rightarrow>
          (case alloc h (GenObj (read_values w data_path)) of (it, h') \<Rightarrow> (Inr it, h')))"

text \<open>\<open>next(it)\<close>: the next value, or \<open>None\<close> for \<open>StopIteration\<close>, and the store with the
  iterator moved on.  A generator object takes one step of its body.  A list iterator
  hands out the element at its position and moves on; past the end it drops its list
  and reports the end from then on.\<close>

definition py_next :: "heap \<Rightarrow> addr \<Rightarrow> (error + int option) \<times> heap" where
  "py_next h it =
     (case lookup h it of
        None \<Rightarrow> (Inl NoSuchObject, h)
      | Some (GenObj g) \<Rightarrow> (case gnext g of (r, g') \<Rightarrow> (r, h[it := GenObj g']))
      | Some (ListIterObj None i) \<Rightarrow> (Inr None, h)
      | Some (ListIterObj (Some s) i) \<Rightarrow>
          (case lookup h s of
             Some (ListObj xs) \<Rightarrow>
               if i < length xs then (Inr (Some (xs ! i)), h[it := ListIterObj (Some s) (i + 1)])
               else (Inr None, h[it := ListIterObj None i])
           | _ \<Rightarrow> (Inl NoSuchObject, h))
      | Some (ListObj xs) \<Rightarrow> (Inl (TypeError ''object is not an iterator''), h)
      | Some (ReadValuesObj p) \<Rightarrow> (Inl (TypeError ''object is not an iterator''), h))"

text \<open>The results of \<open>n\<close> successive calls of \<open>next\<close> on the iterator at one address.\<close>

fun py_nexts :: "nat \<Rightarrow> heap \<Rightarrow> addr \<Rightarrow> (error + int option) list \<times> heap" where
  "py_nexts 0 h it = ([], h)"
| "py_nexts (Suc n) h it =
     (case py_next h it of (r, h') \<Rightarrow>
        (case py_nexts n h' it of (rs, h'') \<Rightarrow> (r # rs, h'')))"

text \<open>How many values an iterator can still hand out: the measure under which the
  loops below end.\<close>

fun gen_size :: "'a gen \<Rightarrow> nat" where
  "gen_size Done = 0"
| "gen_size (Yield v k) = Suc (gen_size k)"
| "gen_size (Raise e) = 0"

definition remaining :: "heap \<Rightarrow> addr \<Rightarrow> nat" where
  "remaining h it =
     (case lookup h it of
        Some (GenObj g) \<Rightarrow> gen_size g
      | Some (ListIterObj (Some s) i) \<Rightarrow>
          (case lookup h s of Some (ListObj xs) \<Rightarrow> length xs - i | _ \<Rightarrow> 0)
      | _ \<Rightarrow> 0)"

text \<open>
  The loop \<open>for v in it: s = body(s, v)\<close> over an iterator, which is also the loop
  inside the built-ins \<open>sum\<close> and \<open>list\<close>: call \<open>next\<close> until it reports the end; an exception
  of \<open>next\<close> or of the body ends the loop at once and leaves the iterator where it is.
\<close>

function for_each ::
  "heap \<Rightarrow> addr \<Rightarrow> ('s \<Rightarrow> int \<Rightarrow> error + 's) \<Rightarrow> 's \<Rightarrow> (error + 's) \<times> heap" where
  "for_each h it body s =
     (case py_next h it of
        (Inl e, h') \<Rightarrow> (Inl e, h')
      | (Inr None, h') \<Rightarrow> (Inr s, h')
      | (Inr (Some v), h') \<Rightarrow>
          (case body s v of
             Inl e \<Rightarrow> (Inl e, h')
           | Inr s' \<Rightarrow> for_each h' it body s'))"
  by pat_completeness auto
termination
proof (relation "measure (\<lambda>(h, it, body, s). remaining h it)", goal_cases)
  case 1
  show ?case by simp
next
  case (2 h it body s r h' opt v s')
  then have nx: "py_next h it = (Inr (Some v), h')" by simp
  have "remaining h' it < remaining h it"
  proof (cases "lookup h it")
    case None
    with nx show ?thesis by (simp add: py_next_def)
  next
    case (Some ob)
    then have lt: "it < length h" by (simp add: lookup_def split: if_splits)
    show ?thesis
    proof (cases ob)
      case (ListObj xs)
      with Some nx show ?thesis by (simp add: py_next_def)
    next
      case (ReadValuesObj p)
      with Some nx show ?thesis by (simp add: py_next_def)
    next
      case (GenObj g)
      with Some nx lt show ?thesis
        by (cases g) (auto simp: py_next_def remaining_def lookup_def)
    next
      case (ListIterObj so i)
      show ?thesis
      proof (cases so)
        case None
        with ListIterObj Some nx show ?thesis by (simp add: py_next_def)
      next
        case (Some s0)
        with ListIterObj \<open>lookup h it = Some ob\<close> nx lt show ?thesis
          by (auto simp: py_next_def remaining_def lookup_def nth_list_update
                   split: option.splits obj.splits if_splits)
      qed
    qed
  qed
  then show ?case by simp
qed

text \<open>\<open>sum(iterable)\<close>: ask for an iterator, then add every value to 0.  The values are
  Python ints, which are unbounded.\<close>

definition py_sum :: "env \<Rightarrow> heap \<Rightarrow> addr \<Rightarrow> (error + int) \<times> heap" where
  "py_sum w h iterable =
     (case py_iter w h iterable of
        (Inl e, h1) \<Rightarrow> (Inl e, h1)
      | (Inr it, h1) \<Rightarrow> for_each h1 it (\<lambda>acc v. Inr (acc + v)) 0)"

text \<open>\<open>list(iterable)\<close>: ask for an iterator, collect every value, and make a new list
  object of them.\<close>

definition py_list :: "env \<Rightarrow> heap \<Rightarrow> addr \<Rightarrow> (error + addr) \<times> heap" where
  "py_list w h iterable =
     (case py_iter w h iterable of
        (Inl e, h1) \<Rightarrow> (Inl e, h1)
      | (Inr it, h1) \<Rightarrow>
          (case for_each h1 it (\<lambda>acc v. Inr (acc @ [v])) [] of
             (Inl e, h2) \<Rightarrow> (Inl e, h2)
           | (Inr vs, h2) \<Rightarrow> (case alloc h2 (ListObj vs) of (l, h3) \<Rightarrow> (Inr l, h3))))"

section \<open>Floats: division of ints and addition\<close>

text \<open>
  A finite float (IEEE 754 binary64) is modelled by the rational number it stands for
  (\<open>- 0.0\<close> and \<open>0.0\<close>, which Python holds equal, are both 0).  Rounding is to the
  nearest float, ties to the even significand: \<open>round_half_even\<close> is that rule on the
  integers.
\<close>

definition round_half_even :: "rat \<Rightarrow> int" where
  "round_half_even x =
     (let f = \<lfloor>x\<rfloor>; r = x - of_int f
      in if r < 1 / 2 then f else if 1 / 2 < r then f + 1 else if even f then f else f + 1)"

text \<open>For \<open>x > 0\<close>, the integer \<open>e\<close> with \<open>2 ^ e \<le> x < 2 ^ (e + 1)\<close>.\<close>

definition floor_log2 :: "rat \<Rightarrow> int" where
  "floor_log2 x =
     (case quotient_of x of (a, b) \<Rightarrow>
        let d = bitlen a - bitlen b in if 2 powi d \<le> x then d else d - 1)"

text \<open>
  \<open>round_double x\<close> is the binary64 value nearest to \<open>x\<close> with the exponent unbounded
  above: 53 significant bits when \<open>\<bar>x\<bar>\<close> is at least \<open>2 ^ - 1022\<close>, and a multiple of
  \<open>2 ^ - 1074\<close> below that (the subnormal numbers).
\<close>

definition round_double :: "rat \<Rightarrow> rat" where
  "round_double x =
     (if x = 0 then 0
      else let e = max (floor_log2 \<bar>x\<bar>) (- 1022); ulp = 2 powi (e - 52)
           in of_int (round_half_even (x / ulp)) * ulp)"

text \<open>
  \<open>a / b\<close> on Python ints is true division: it raises \<open>ZeroDivisionError\<close> when \<open>b\<close> is 0,
  and otherwise returns the float nearest to the exact quotient, or raises
  \<open>OverflowError\<close> when that is beyond the largest float.
\<close>

definition true_div :: "int \<Rightarrow> int \<Rightarrow> error + rat" where
  "true_div a b =
     (if b = 0 then Inl ZeroDivisionError
      else let r = round_double (of_int a / of_int b)
           in if 2 ^ 1024 \<le> \<bar>r\<bar> then Inl OverflowError else Inr r)"

text \<open>
  \<open>sum(percentages)\<close> on a list of floats, as the notebook's Python 3.7 computes it: the
  start value is the int 0, the first addition gives the first float unchanged, and
  every further addition is a float addition, rounded to the nearest float.  A sum
  beyond the largest float is infinite in Python; the model has no value for that and
  answers \<open>None\<close>.
\<close>

definition float_add :: "rat \<Rightarrow> rat \<Rightarrow> rat option" where
  "float_add x y =
     (let r = round_double (x + y) in if 2 ^ 1024 \<le> \<bar>r\<bar> then None else Some r)"

fun float_sum_from :: "rat \<Rightarrow> rat list \<Rightarrow> rat option" where
  "float_sum_from acc [] = Some acc"
| "float_sum_from acc (p # ps) =
     (case float_add acc p of None \<Rightarrow> None | Some acc' \<Rightarrow> float_sum_from acc' ps)"

definition py_sum_floats :: "rat list \<Rightarrow> rat option" where
  "py_sum_floats ps = float_sum_from 0 ps"

section \<open>Item 31: iterating over arguments\<close>

text \<open>
  The functions take the world \<open>w\<close> (the files and \<open>int\<close>), the store and the reference
  \<open>numbers\<close>, and return the list of percentages (or the exception) and the store they
  leave.  The values iterated over are Python ints, as in the notebook (\<open>int(line)\<close>
  and int literals); \<open>normalize\<close> on a list of floats is \<open>normalize_floats\<close>, in a
  section of its own below.  The result list is returned as a value; its elements are
  floats.
\<^verbatim>\<open>
def normalize(numbers):
    total = sum(numbers)
    result = []
    for value in numbers:
        percent = 100 * value / total
        result.append(percent)
    return result
\<close>\<close>

definition normalize :: "env \<Rightarrow> heap \<Rightarrow> addr \<Rightarrow> (error + rat list) \<times> heap" where
  "normalize w h numbers =
     (case py_sum w h numbers of
        (Inl e, h1) \<Rightarrow> (Inl e, h1)
      | (Inr total', h1) \<Rightarrow>
          (case py_iter w h1 numbers of
             (Inl e, h2) \<Rightarrow> (Inl e, h2)
           | (Inr it, h2) \<Rightarrow>
               for_each h2 it
                 (\<lambda>result value.
                    case true_div (100 * value) total' of
                      Inl e \<Rightarrow> Inl e
                    | Inr percent \<Rightarrow> Inr (result @ [percent]))
                 []))"

text \<open>
\<^verbatim>\<open>
def normalize_copy(numbers):
    numbers_copy = list(numbers)
    total = sum(numbers_copy)
    result = []
    for value in numbers_copy:
        percent = 100 * value / total
        result.append(percent)
    return result
\<close>\<close>

definition normalize_copy :: "env \<Rightarrow> heap \<Rightarrow> addr \<Rightarrow> (error + rat list) \<times> heap" where
  "normalize_copy w h numbers =
     (case py_list w h numbers of
        (Inl e, h0) \<Rightarrow> (Inl e, h0)
      | (Inr numbers_copy, h0) \<Rightarrow>
     (case py_sum w h0 numbers_copy of
        (Inl e, h1) \<Rightarrow> (Inl e, h1)
      | (Inr total', h1) \<Rightarrow>
          (case py_iter w h1 numbers_copy of
             (Inl e, h2) \<Rightarrow> (Inl e, h2)
           | (Inr it, h2) \<Rightarrow>
               for_each h2 it
                 (\<lambda>result value.
                    case true_div (100 * value) total' of
                      Inl e \<Rightarrow> Inl e
                    | Inr percent \<Rightarrow> Inr (result @ [percent]))
                 [])))"

text \<open>Calling the generator function \<open>read_values(data_path)\<close> makes a new generator
  object; nothing of the body runs yet.\<close>

definition read_values_call :: "env \<Rightarrow> string \<Rightarrow> heap \<Rightarrow> (error + addr) \<times> heap" where
  "read_values_call w data_path h =
     (case alloc h (GenObj (read_values w data_path)) of (g, h') \<Rightarrow> (Inr g, h'))"

text \<open>
\<^verbatim>\<open>
def normalize_func(get_iter):
    total = sum(get_iter())
    result = []
    for value in get_iter():
        percent = 100 * value / total
        result.append(percent)
    return result
\<close>
  \<open>get_iter\<close> is a callable without arguments; calling it may make objects, so it takes
  the store and returns a reference and the new store.\<close>

definition normalize_func ::
  "env \<Rightarrow> (heap \<Rightarrow> (error + addr) \<times> heap) \<Rightarrow> heap \<Rightarrow> (error + rat list) \<times> heap" where
  "normalize_func w get_iter h =
     (case get_iter h of
        (Inl e, h0) \<Rightarrow> (Inl e, h0)
      | (Inr first_pass, h0) \<Rightarrow>
     (case py_sum w h0 first_pass of
        (Inl e, h1) \<Rightarrow> (Inl e, h1)
      | (Inr total', h1) \<Rightarrow>
     (case get_iter h1 of
        (Inl e, h2) \<Rightarrow> (Inl e, h2)
      | (Inr second_pass, h2) \<Rightarrow>
          (case py_iter w h2 second_pass of
             (Inl e, h3) \<Rightarrow> (Inl e, h3)
           | (Inr it, h3) \<Rightarrow>
               for_each h3 it
                 (\<lambda>result value.
                    case true_div (100 * value) total' of
                      Inl e \<Rightarrow> Inl e
                    | Inr percent \<Rightarrow> Inr (result @ [percent]))
                 []))))"

text \<open>The test \<open>iter(numbers) is numbers\<close>: whether asking \<open>numbers\<close> for an iterator
  answers with \<open>numbers\<close> itself.\<close>

definition iter_is_self :: "env \<Rightarrow> heap \<Rightarrow> addr \<Rightarrow> (error + bool) \<times> heap" where
  "iter_is_self w h numbers =
     (case py_iter w h numbers of
        (Inl e, h0) \<Rightarrow> (Inl e, h0)
      | (Inr it, h0) \<Rightarrow> (Inr (it = numbers), h0))"

text \<open>
\<^verbatim>\<open>
def normalize_defensive(numbers):
    if iter(numbers) is numbers:
        raise TypeError('Must supply a container')
    total = sum(numbers)
    result = []
    for value in numbers:
        percent = 100 * value / total
        result.append(percent)
    return result
\<close>\<close>

definition normalize_defensive :: "env \<Rightarrow> heap \<Rightarrow> addr \<Rightarrow> (error + rat list) \<times> heap" where
  "normalize_defensive w h numbers =
     (case iter_is_self w h numbers of
        (Inl e, h0) \<Rightarrow> (Inl e, h0)
      | (Inr True, h0) \<Rightarrow> (Inl (TypeError ''Must supply a container''), h0)
      | (Inr False, h0) \<Rightarrow>
     (case py_sum w h0 numbers of
        (Inl e, h1) \<Rightarrow> (Inl e, h1)
      | (Inr total', h1) \<Rightarrow>
          (case py_iter w h1 numbers of
             (Inl e, h2) \<Rightarrow> (Inl e, h2)
           | (Inr it, h2) \<Rightarrow>
               for_each h2 it
                 (\<lambda>result value.
                    case true_div (100 * value) total' of
                      Inl e \<Rightarrow> Inl e
                    | Inr percent \<Rightarrow> Inr (result @ [percent]))
                 [])))"

text \<open>The specification calls the outcome of that test a classification of the
  source: a single-pass iterator when the test holds, a container when it does not.\<close>

datatype source_kind = Container | SinglePassIterator

definition classify :: "env \<Rightarrow> heap \<Rightarrow> addr \<Rightarrow> (error + source_kind) \<times> heap" where
  "classify w h source =
     (case iter_is_self w h source of
        (Inl e, h0) \<Rightarrow> (Inl e, h0)
      | (Inr b, h0) \<Rightarrow> (Inr (if b then SinglePassIterator else Container), h0))"

section \<open>Vocabulary of the statements\<close>

text \<open>An iterator object: what \<open>iter\<close> answers with itself.\<close>

fun is_cursor :: "obj \<Rightarrow> bool" where
  "is_cursor (ListIterObj s i) = True"
| "is_cursor (GenObj g) = True"
| "is_cursor (ListObj xs) = False"
| "is_cursor (ReadValuesObj p) = False"

text \<open>The iterator at \<open>it\<close> has exactly the values \<open>xs\<close> left to hand out, and then ends
  without raising.\<close>

definition cursor_yields :: "heap \<Rightarrow> addr \<Rightarrow> int list \<Rightarrow> bool" where
  "cursor_yields h it xs =
     (case lookup h it of
        Some (GenObj g) \<Rightarrow> drain g = Inr xs
      | Some (ListIterObj None i) \<Rightarrow> xs = []
      | Some (ListIterObj (Some s) i) \<Rightarrow>
          (case lookup h s of Some (ListObj ys) \<Rightarrow> xs = drop i ys | _ \<Rightarrow> False)
      | _ \<Rightarrow> False)"

text \<open>The object at \<open>c\<close> is a container holding exactly the values \<open>xs\<close>: the list
  \<open>xs\<close>, or a \<open>ReadValues\<close> instance whose file reads as \<open>xs\<close>.\<close>

definition container_holds :: "env \<Rightarrow> heap \<Rightarrow> addr \<Rightarrow> int list \<Rightarrow> bool" where
  "container_holds w h c xs =
     (case lookup h c of
        Some (ListObj ys) \<Rightarrow> ys = xs
      | Some (ReadValuesObj p) \<Rightarrow> drain (read_values w p) = Inr xs
      | _ \<Rightarrow> False)"

text \<open>A loop body run over a list of values, stopping at the first exception.\<close>

fun fold_err :: "('s \<Rightarrow> 'a \<Rightarrow> error + 's) \<Rightarrow> 's \<Rightarrow> 'a list \<Rightarrow> error + 's" where
  "fold_err body s [] = Inr s"
| "fold_err body s (x # xs) =
     (case body s x of Inl e \<Rightarrow> Inl e | Inr s' \<Rightarrow> fold_err body s' xs)"

text \<open>
  A world to run the notebook in: the file \<open>../data/values.txt\<close> holds the lines
  \<open>15\<close>, \<open>35\<close>, \<open>80\<close>, and \<open>int\<close> reads decimal digits with an optional sign between
  optional white space, which is the part of Python's \<open>int\<close> that such lines need
  (Python's \<open>int\<close> also takes underscores between digits, and the form feed and the
  vertical tab as white space; \<open>decimal_int\<close> answers \<open>ValueError\<close> for both).
\<close>

definition is_space :: "char \<Rightarrow> bool" where
  "is_space c = (c = CHR '' '' \<or> c = CHR 0x0A \<or> c = CHR 0x09 \<or> c = CHR 0x0D)"

fun digits_value :: "string \<Rightarrow> int \<Rightarrow> error + int" where
  "digits_value [] acc = Inr acc"
| "digits_value (c # cs) acc =
     (let n = (of_char c :: nat)
      in if 48 \<le> n \<and> n \<le> 57 then digits_value cs (10 * acc + int n - 48)
         else Inl ValueError)"

definition decimal_int :: "string \<Rightarrow> error + int" where
  "decimal_int s =
     (case rev (dropWhile is_space (rev (dropWhile is_space s))) of
        [] \<Rightarrow> Inl ValueError
      | c # cs \<Rightarrow>
          if c = CHR ''-'' then
            (if cs = [] then Inl ValueError
             else case digits_value cs 0 of Inl e \<Rightarrow> Inl e | Inr n \<Rightarrow> Inr (- n))
          else if c = CHR ''+'' then
            (if cs = [] then Inl ValueError else digits_value cs 0)
          else digits_value (c # cs) 0)"

definition sample_world :: env where
  "sample_world =
     \<lparr> files = (\<lambda>p. if p = ''../data/values.txt''
                     then Some [''15'' @ [CHR 0x0A], ''35'' @ [CHR 0x0A], ''80'' @ [CHR 0x0A]]
                     else None),
       int_of = decimal_int \<rparr>"

section \<open>Item 31 on a list of floats\<close>









declare for_each.simps [simp del]

section \<open>Facts about generators\<close>

lemma yield_from_id: "yield_from g = g"
  by (induction g) simp_all

lemma for_gen_yield: "for_gen g (\<lambda>x. yield x) = yield_from g"
  by (induction g) (simp_all add: yield_def)

lemma yielded_gseq:
  "raises_nothing a \<Longrightarrow> yielded (gseq a b) = yielded a @ yielded b"
  by (induction a) simp_all

lemma raises_nothing_gseq:
  "raises_nothing (gseq a b) = (raises_nothing a \<and> raises_nothing b)"
  by (induction a) simp_all

lemma raises_nothing_yield_from: "raises_nothing (yield_from g) = raises_nothing g"
  by (induction g) simp_all

lemma yielded_yield_from: "yielded (yield_from g) = yielded g"
  by (induction g) simp_all

lemma drain_raises_nothing: "raises_nothing g \<Longrightarrow> drain g = Inr (yielded g)"
  by (induction g) simp_all

lemma nexts_raises_nothing:
  "raises_nothing g \<Longrightarrow>
   nexts n g = map (\<lambda>v. Inr (Some v)) (take n (yielded g))
             @ replicate (n - length (yielded g)) (Inr None)"
proof (induction n arbitrary: g)
  case 0
  show ?case by simp
next
  case (Suc n)
  show ?case
  proof (cases g)
    case Done
    have "nexts n (Done :: 'a gen) = replicate n (Inr None)"
      using Suc.IH [of Done] by simp
    with Done show ?thesis by simp
  next
    case (Yield v k)
    with Suc.prems have "raises_nothing k" by simp
    from Suc.IH [OF this] Yield show ?thesis by simp
  next
    case (Raise e)
    with Suc.prems show ?thesis by simp
  qed
qed

lemma py_range_4: "py_range 4 = [0, 1, 2, 3]"
  by (simp add: py_range_def upto_rec1)

lemma py_range_3: "py_range 3 = [0, 1, 2]"
  by (simp add: py_range_def upto_rec1)

lemma py_range_2: "py_range 2 = [0, 1]"
  by (simp add: py_range_def upto_rec1)

lemma move_4: "move 4 s = Yield s (Yield s (Yield s (Yield s Done)))"
  by (simp add: move_def py_range_4 yield_def)

lemma move_2: "move 2 s = Yield s (Yield s Done)"
  by (simp add: move_def py_range_2 yield_def)

lemma pause_3: "pause 3 = Yield (PyInt 0) (Yield (PyInt 0) (Yield (PyInt 0) Done))"
  by (simp add: pause_def py_range_3 yield_def)

lemma animate_composed_unfolded:
  "animate_composed =
     Yield (PyFloat 5) (Yield (PyFloat 5) (Yield (PyFloat 5) (Yield (PyFloat 5)
    (Yield (PyInt 0) (Yield (PyInt 0) (Yield (PyInt 0)
    (Yield (PyFloat 3) (Yield (PyFloat 3) Done))))))))"
  by (simp add: animate_composed_def move_4 move_2 pause_3)

lemma drain_Inr: "drain g = Inr xs \<Longrightarrow> raises_nothing g \<and> yielded g = xs"
  by (induction g arbitrary: xs) (auto split: sum.splits)

lemma drain_Nil: "drain g = Inr [] \<longleftrightarrow> g = Done"
  by (cases g) (auto split: sum.splits)

lemma drain_Cons: "drain g = Inr (x # xs) \<longleftrightarrow> (\<exists>k. g = Yield x k \<and> drain k = Inr xs)"
  by (cases g) (auto split: sum.splits)

lemma for_list_yields:
  assumes "\<And>e. raises_nothing (f e)"
  shows "raises_nothing (for_list es f) \<and> yielded (for_list es f) = concat (map (\<lambda>e. yielded (f e)) es)"
  using assms by (induction es) (simp_all add: raises_nothing_gseq yielded_gseq)

lemma foldl_append_concat:
  "foldl (\<lambda>result e. result @ g e) acc es = acc @ concat (map g es)"
  by (induction es arbitrary: acc) simp_all

lemma drain_index_words_iter: "drain (index_words_iter text) = Inr (index_words text)"
proof -
  let ?f = "\<lambda>(index :: nat, letter). if letter = CHR '' '' then yield (int index + 1) else Done"
  let ?g = "\<lambda>(index :: nat, letter). if letter = CHR '' '' then [int index + 1] else []"
  have rn: "\<And>e. raises_nothing (?f e)" by (simp add: yield_def split: prod.splits)
  have y: "\<And>e. yielded (?f e) = ?g e" by (simp add: yield_def split: prod.splits)
  from for_list_yields [of ?f "enumerate 0 text", OF rn] y
  have body: "raises_nothing (for_list (enumerate 0 text) ?f)"
    "yielded (for_list (enumerate 0 text) ?f) = concat (map ?g (enumerate 0 text))"
    by simp_all
  have fl: "(\<lambda>result (index :: nat, letter).
               if letter = CHR '' '' then result @ [int index + 1] else result)
          = (\<lambda>result e. result @ ?g e)"
    by (auto simp: fun_eq_iff)
  have "raises_nothing (index_words_iter text)"
    using body(1) by (simp add: index_words_iter_def raises_nothing_gseq yield_def)
  moreover have "yielded (index_words_iter text) = index_words text"
    using body
    by (simp add: index_words_iter_def index_words_def yielded_gseq yield_def Let_def fl
                  foldl_append_concat)
  ultimately show ?thesis by (simp add: drain_raises_nothing)
qed

section \<open>Facts about the store and the iterator protocol\<close>

lemma lookup_Some_iff: "lookup h a = Some ob \<longleftrightarrow> a < length h \<and> h ! a = ob"
  by (auto simp: lookup_def)

lemma lookup_update:
  "lookup (h[a := ob]) b = (if b < length h then (if a = b then Some ob else lookup h b) else None)"
  by (simp add: lookup_def)

lemma lookup_append:
  "lookup (h @ [ob]) a =
     (if a < length h then lookup h a else if a = length h then Some ob else None)"
  by (simp add: lookup_def nth_append)

lemma cursor_yields_is_cursor:
  "cursor_yields h it xs \<Longrightarrow> \<exists>ob. lookup h it = Some ob \<and> is_cursor ob"
  by (auto simp: cursor_yields_def split: option.splits obj.splits)

lemma py_next_cursor_Nil:
  assumes "cursor_yields h it []"
  shows "\<exists>ob. py_next h it = (Inr None, h[it := ob]) \<and> is_cursor ob
            \<and> cursor_yields (h[it := ob]) it []"
proof -
  from assms obtain ob0 where l: "lookup h it = Some ob0" and c: "is_cursor ob0"
    using cursor_yields_is_cursor by blast
  then have lt: "it < length h" and nth: "h ! it = ob0" by (auto simp: lookup_Some_iff)
  show ?thesis
  proof (cases ob0)
    case (GenObj g)
    with assms l have "g = Done" by (simp add: cursor_yields_def drain_Nil)
    with GenObj l lt show ?thesis
      by (intro exI [of _ "GenObj Done"]) (simp add: py_next_def cursor_yields_def lookup_update)
  next
    case (ListIterObj so i)
    show ?thesis
    proof (cases so)
      case None
      with ListIterObj l nth lt assms show ?thesis
        by (intro exI [of _ "ListIterObj None i"]) (simp add: py_next_def list_update_same_conv [THEN iffD2])
    next
      case (Some s)
      with ListIterObj l assms obtain ys where ys: "lookup h s = Some (ListObj ys)" "length ys \<le> i"
        by (auto simp: cursor_yields_def split: option.splits obj.splits)
      with Some ListIterObj l lt show ?thesis
        by (intro exI [of _ "ListIterObj None i"]) (simp add: py_next_def cursor_yields_def lookup_update)
    qed
  qed (use c in simp_all)
qed

lemma py_next_cursor_Cons:
  assumes "cursor_yields h it (x # xs)"
  shows "\<exists>ob. py_next h it = (Inr (Some x), h[it := ob]) \<and> is_cursor ob
            \<and> cursor_yields (h[it := ob]) it xs"
proof -
  from assms obtain ob0 where l: "lookup h it = Some ob0" and c: "is_cursor ob0"
    using cursor_yields_is_cursor by blast
  then have lt: "it < length h" and nth: "h ! it = ob0" by (auto simp: lookup_Some_iff)
  show ?thesis
  proof (cases ob0)
    case (GenObj g)
    with assms l obtain k where "g = Yield x k" "drain k = Inr xs"
      by (auto simp: cursor_yields_def drain_Cons)
    with GenObj l lt show ?thesis
      by (intro exI [of _ "GenObj k"]) (simp add: py_next_def cursor_yields_def lookup_update)
  next
    case (ListIterObj so i)
    show ?thesis
    proof (cases so)
      case None
      with ListIterObj l assms show ?thesis by (simp add: cursor_yields_def)
    next
      case (Some s)
      with ListIterObj l assms obtain ys where ys: "lookup h s = Some (ListObj ys)" "x # xs = drop i ys"
        by (auto simp: cursor_yields_def split: option.splits obj.splits)
      then have i: "i < length ys" by (cases "i < length ys") auto
      from ys(2) i have x: "ys ! i = x" and xs: "xs = drop (Suc i) ys"
        by (simp_all add: Cons_nth_drop_Suc [symmetric])
      from ys(1) l ListIterObj have ne: "s \<noteq> it" by auto
      from ys(1) have "s < length h" by (simp add: lookup_Some_iff)
      with Some ListIterObj l lt ys(1) i x xs ne show ?thesis
        by (intro exI [of _ "ListIterObj (Some s) (Suc i)"])
           (simp add: py_next_def cursor_yields_def lookup_update)
    qed
  qed (use c in simp_all)
qed

lemma for_each_cursor:
  assumes "cursor_yields h it xs"
  shows "\<exists>ob. for_each h it body s = (fold_err body s xs, h[it := ob]) \<and> is_cursor ob
            \<and> (\<forall>r. fold_err body s xs = Inr r \<longrightarrow> cursor_yields (h[it := ob]) it [])"
  using assms
proof (induction xs arbitrary: h s)
  case Nil
  from py_next_cursor_Nil [OF Nil] obtain ob where
    "py_next h it = (Inr None, h[it := ob])" "is_cursor ob" "cursor_yields (h[it := ob]) it []"
    by blast
  then show ?case
    by (intro exI [of _ ob]) (simp add: for_each.simps [of h])
next
  case (Cons x xs)
  from py_next_cursor_Cons [OF Cons.prems] obtain ob where
    nx: "py_next h it = (Inr (Some x), h[it := ob])" and c: "is_cursor ob"
    and cy: "cursor_yields (h[it := ob]) it xs"
    by blast
  show ?case
  proof (cases "body s x")
    case (Inl e)
    with nx c show ?thesis
      by (intro exI [of _ ob]) (simp add: for_each.simps [of h])
  next
    case (Inr s')
    from Cons.IH [OF cy, of s'] obtain ob' where
      fe: "for_each (h[it := ob]) it body s' = (fold_err body s' xs, h[it := ob, it := ob'])"
      and c': "is_cursor ob'"
      and fin: "\<forall>r. fold_err body s' xs = Inr r \<longrightarrow> cursor_yields (h[it := ob, it := ob']) it []"
      by blast
    with nx Inr show ?thesis
      by (intro exI [of _ ob']) (simp add: for_each.simps [of h])
  qed
qed

lemma container_holds_lt: "container_holds w h c xs \<Longrightarrow> c < length h"
  by (auto simp: container_holds_def lookup_def split: if_splits)

lemma container_holds_append:
  "container_holds w h c xs \<Longrightarrow> container_holds w (h @ obs) c xs"
  by (auto simp: container_holds_def lookup_def nth_append split: if_splits)

lemma container_not_cursor:
  "container_holds w h c xs \<Longrightarrow> cursor_yields h c ys \<Longrightarrow> False"
  by (auto simp: container_holds_def cursor_yields_def split: option.splits obj.splits)

lemma py_iter_container:
  assumes "container_holds w h c xs"
  shows "\<exists>ob. py_iter w h c = (Inr (length h), h @ [ob]) \<and> is_cursor ob
            \<and> cursor_yields (h @ [ob]) (length h) xs"
proof -
  from assms have lt: "c < length h" by (rule container_holds_lt)
  then obtain ob0 where l: "lookup h c = Some ob0" by (simp add: lookup_def)
  show ?thesis
  proof (cases ob0)
    case (ListObj ys)
    with assms l lt show ?thesis
      by (intro exI [of _ "ListIterObj (Some c) 0"])
         (simp add: py_iter_def alloc_def container_holds_def cursor_yields_def lookup_append)
  next
    case (ReadValuesObj p)
    with assms l lt show ?thesis
      by (intro exI [of _ "GenObj (read_values w p)"])
         (simp add: py_iter_def alloc_def container_holds_def cursor_yields_def lookup_append)
  qed (use assms l in \<open>simp_all add: container_holds_def\<close>)
qed

lemma py_iter_cursor:
  "cursor_yields h it xs \<Longrightarrow> py_iter w h it = (Inr it, h)"
  by (auto simp: cursor_yields_def py_iter_def split: option.splits obj.splits)

lemma fold_err_sum: "fold_err (\<lambda>acc v. Inr (acc + v)) a xs = Inr (a + sum_list xs)"
  by (induction xs arbitrary: a) (simp_all add: add.assoc)

lemma fold_err_append: "fold_err (\<lambda>acc v. Inr (acc @ [v])) a xs = Inr (a @ xs)"
  by (induction xs arbitrary: a) simp_all

lemma py_sum_cursor:
  assumes "cursor_yields h it xs"
  shows "\<exists>ob. py_sum w h it = (Inr (sum_list xs), h[it := ob]) \<and> is_cursor ob
            \<and> cursor_yields (h[it := ob]) it []"
proof -
  from for_each_cursor [OF assms, of "\<lambda>acc v. Inr (acc + v)" 0]
  show ?thesis
    by (auto simp: py_sum_def py_iter_cursor [OF assms] fold_err_sum)
qed

lemma py_sum_container:
  assumes "container_holds w h c xs"
  shows "\<exists>ob. py_sum w h c = (Inr (sum_list xs), h @ [ob]) \<and> is_cursor ob"
proof -
  from py_iter_container [OF assms] obtain ob0 where
    it: "py_iter w h c = (Inr (length h), h @ [ob0])"
    and cy: "cursor_yields (h @ [ob0]) (length h) xs"
    by blast
  from for_each_cursor [OF cy, of "\<lambda>acc v. Inr (acc + v)" 0] obtain ob where
    "for_each (h @ [ob0]) (length h) (\<lambda>acc v. Inr (acc + v)) 0
       = (Inr (sum_list xs), (h @ [ob0])[length h := ob])" "is_cursor ob"
    by (auto simp: fold_err_sum)
  with it show ?thesis
    by (intro exI [of _ ob]) (simp add: py_sum_def)
qed

lemma py_list_cursor:
  assumes "cursor_yields h it xs"
  shows "\<exists>ob. py_list w h it = (Inr (length h), h[it := ob] @ [ListObj xs]) \<and> is_cursor ob
            \<and> cursor_yields (h[it := ob]) it []"
proof -
  from for_each_cursor [OF assms, of "\<lambda>acc v. Inr (acc @ [v])" "[]"]
  show ?thesis
    by (auto simp: py_list_def py_iter_cursor [OF assms] fold_err_append alloc_def)
qed

lemma py_list_container:
  assumes "container_holds w h c xs"
  shows "\<exists>ob. py_list w h c = (Inr (Suc (length h)), h @ [ob, ListObj xs]) \<and> is_cursor ob"
proof -
  from py_iter_container [OF assms] obtain ob0 where
    it: "py_iter w h c = (Inr (length h), h @ [ob0])"
    and cy: "cursor_yields (h @ [ob0]) (length h) xs"
    by blast
  from for_each_cursor [OF cy, of "\<lambda>acc v. Inr (acc @ [v])" "[]"] obtain ob where
    "for_each (h @ [ob0]) (length h) (\<lambda>acc v. Inr (acc @ [v])) []
       = (Inr xs, (h @ [ob0])[length h := ob])" "is_cursor ob"
    by (auto simp: fold_err_append)
  with it show ?thesis
    by (intro exI [of _ ob]) (simp add: py_list_def alloc_def)
qed

lemma py_next_update:
  "\<exists>ob'. snd (py_next h a) = h[a := ob'] \<and> (a < length h \<longrightarrow> is_cursor ob' = is_cursor (h ! a))"
proof (cases "lookup h a")
  case None
  then show ?thesis
    by (intro exI [of _ "h ! a"]) (simp add: py_next_def)
next
  case (Some ob)
  then have lt: "a < length h" and nth: "h ! a = ob" by (auto simp: lookup_Some_iff)
  show ?thesis
  proof (cases ob)
    case (ListObj xs)
    with Some show ?thesis
      by (intro exI [of _ "h ! a"]) (simp add: py_next_def)
  next
    case (ReadValuesObj p)
    with Some show ?thesis
      by (intro exI [of _ "h ! a"]) (simp add: py_next_def)
  next
    case (GenObj g)
    with Some nth show ?thesis
      by (intro exI [of _ "GenObj (snd (gnext g))"]) (simp add: py_next_def split: prod.splits)
  next
    case (ListIterObj so i)
    show ?thesis
    proof (cases so)
      case None
      with ListIterObj Some show ?thesis
        by (intro exI [of _ "h ! a"]) (simp add: py_next_def)
    next
      case (Some s)
      show ?thesis
      proof (cases "\<exists>xs. lookup h s = Some (ListObj xs)")
        case False
        with Some ListIterObj \<open>lookup h a = Some ob\<close> show ?thesis
          by (intro exI [of _ "h ! a"]) (auto simp: py_next_def split: option.splits obj.splits)
      next
        case True
        then obtain xs where "lookup h s = Some (ListObj xs)" by blast
        with Some ListIterObj \<open>lookup h a = Some ob\<close> nth show ?thesis
          by (intro exI [of _ "if i < length xs then ListIterObj (Some s) (i + 1)
                               else ListIterObj None i"])
             (simp add: py_next_def)
      qed
    qed
  qed
qed

lemma py_nexts_update:
  "\<exists>ob'. snd (py_nexts n h a) = h[a := ob'] \<and> (a < length h \<longrightarrow> is_cursor ob' = is_cursor (h ! a))"
proof (induction n arbitrary: h)
  case 0
  show ?case by (intro exI [of _ "h ! a"]) simp
next
  case (Suc n)
  from py_next_update [of h a] obtain ob1 where
    1: "snd (py_next h a) = h[a := ob1]" and c1: "a < length h \<longrightarrow> is_cursor ob1 = is_cursor (h ! a)"
    by blast
  from Suc.IH [of "h[a := ob1]"] obtain ob2 where
    2: "snd (py_nexts n (h[a := ob1]) a) = h[a := ob1, a := ob2]"
    and c2: "a < length h \<longrightarrow> is_cursor ob2 = is_cursor ob1"
    by auto
  from 1 2 c1 c2 show ?case
    by (intro exI [of _ ob2]) (simp add: case_prod_unfold)
qed

lemma cursor_yields_update_other:
  assumes "cursor_yields h b xs" and "a \<noteq> b" and "a < length h \<longrightarrow> is_cursor (h ! a)"
  shows "cursor_yields (h[a := ob']) b xs"
proof -
  from assms(1) obtain ob where l: "lookup h b = Some ob" "is_cursor ob"
    using cursor_yields_is_cursor by blast
  then have lb: "lookup (h[a := ob']) b = Some ob"
    using assms(2) by (auto simp: lookup_update lookup_Some_iff)
  show ?thesis
  proof (cases ob)
    case (GenObj g)
    with l lb assms(1) show ?thesis by (simp add: cursor_yields_def)
  next
    case (ListIterObj so i)
    show ?thesis
    proof (cases so)
      case None
      with ListIterObj l lb assms(1) show ?thesis by (simp add: cursor_yields_def)
    next
      case (Some s)
      with ListIterObj l assms(1) obtain ys where
        ys: "lookup h s = Some (ListObj ys)" "xs = drop i ys"
        by (auto simp: cursor_yields_def split: option.splits obj.splits)
      with assms(3) have "s \<noteq> a" by (auto simp: lookup_Some_iff)
      with ys have "lookup (h[a := ob']) s = Some (ListObj ys)"
        by (auto simp: lookup_update lookup_Some_iff)
      with Some ListIterObj lb ys(2) show ?thesis by (simp add: cursor_yields_def)
    qed
  qed (use l in simp_all)
qed

lemma container_holds_is_container:
  "container_holds w h c xs \<Longrightarrow> \<exists>ob. lookup h c = Some ob \<and> \<not> is_cursor ob"
  by (cases "lookup h c") (auto simp: container_holds_def split: obj.splits)

lemma container_holds_update_cursor:
  assumes "container_holds w h c xs" and "a < length h \<longrightarrow> is_cursor (h ! a)"
  shows "container_holds w (h[a := ob']) c xs"
proof -
  from container_holds_is_container [OF assms(1)] obtain ob where
    ob: "lookup h c = Some ob" "\<not> is_cursor ob" by blast
  then have lt: "c < length h" and nth: "h ! c = ob" by (simp_all add: lookup_Some_iff)
  with assms(2) ob(2) have "a \<noteq> c" by auto
  with lt have "lookup (h[a := ob']) c = lookup h c" by (simp add: lookup_update)
  then show ?thesis using assms(1) by (simp add: container_holds_def)
qed

lemma py_nexts_cursor:
  assumes "cursor_yields h b xs"
  shows "fst (py_nexts m h b)
           = map (\<lambda>v. Inr (Some v)) (take m xs) @ replicate (m - length xs) (Inr None)"
  using assms
proof (induction m arbitrary: h xs)
  case 0
  show ?case by simp
next
  case (Suc m)
  show ?case
  proof (cases xs)
    case Nil
    with Suc.prems py_next_cursor_Nil [of h b] obtain ob where
      nx: "py_next h b = (Inr None, h[b := ob])" and cy: "cursor_yields (h[b := ob]) b []"
      by blast
    from Suc.IH [OF cy] nx Nil show ?thesis by (simp add: case_prod_unfold)
  next
    case (Cons x xs')
    with Suc.prems py_next_cursor_Cons [of h b x xs'] obtain ob where
      nx: "py_next h b = (Inr (Some x), h[b := ob])" and cy: "cursor_yields (h[b := ob]) b xs'"
      by blast
    from Suc.IH [OF cy] nx Cons show ?thesis by (simp add: case_prod_unfold)
  qed
qed

lemma py_next_exhausted_stable:
  assumes "py_next h it = (Inr None, h')"
  shows "py_next h' it = (Inr None, h')"
proof (cases "lookup h it")
  case None
  with assms show ?thesis by (simp add: py_next_def)
next
  case (Some ob)
  then have lt: "it < length h" by (simp add: lookup_Some_iff)
  show ?thesis
  proof (cases ob)
    case (ListObj xs)
    with Some assms show ?thesis by (simp add: py_next_def)
  next
    case (ReadValuesObj p)
    with Some assms show ?thesis by (simp add: py_next_def)
  next
    case (GenObj g)
    with Some assms lt show ?thesis
      by (cases g) (auto simp: py_next_def lookup_update)
  next
    case (ListIterObj so i)
    show ?thesis
    proof (cases so)
      case None
      with ListIterObj Some assms show ?thesis by (auto simp: py_next_def)
    next
      case (Some s)
      with ListIterObj \<open>lookup h it = Some ob\<close>
      have l: "lookup h it = Some (ListIterObj (Some s) i)" by simp
      show ?thesis
      proof (cases "\<exists>xs. lookup h s = Some (ListObj xs)")
        case False
        with l assms show ?thesis
          by (auto simp: py_next_def split: option.splits obj.splits)
      next
        case True
        then obtain xs where xs: "lookup h s = Some (ListObj xs)" by blast
        with l assms have "h' = h[it := ListIterObj None i]"
          by (simp add: py_next_def split: if_splits)
        with lt show ?thesis by (simp add: py_next_def lookup_update)
      qed
    qed
  qed
qed

lemma py_nexts_exhausted:
  "py_next h it = (Inr None, h) \<Longrightarrow> py_nexts n h it = (replicate n (Inr None), h)"
  by (induction n) simp_all

lemma py_list_gives_container:
  assumes "py_list w h src = (Inr l, h0)"
    and "cursor_yields h src xs \<or> container_holds w h src xs"
  shows "length h \<le> l \<and> lookup h0 l = Some (ListObj xs) \<and> container_holds w h0 l xs
       \<and> (container_holds w h src xs \<longrightarrow> lookup h0 src = lookup h src)"
proof -
  from assms(2) show ?thesis
  proof
    assume cy: "cursor_yields h src xs"
    from py_list_cursor [OF cy, of w] assms(1) obtain ob where
      "l = length h" "h0 = h[src := ob] @ [ListObj xs]" by auto
    moreover from cy have "\<not> container_holds w h src xs"
      using container_not_cursor by blast
    ultimately show ?thesis
      by (simp add: lookup_append container_holds_def)
  next
    assume ch: "container_holds w h src xs"
    from py_list_container [OF ch] assms(1) obtain ob where
      "l = Suc (length h)" "h0 = h @ [ob, ListObj xs]" by auto
    moreover from ch have "src < length h" by (rule container_holds_lt)
    ultimately show ?thesis
      by (simp add: lookup_def container_holds_def nth_append)
  qed
qed

lemma lookup_append_Some: "lookup h a = Some ob \<Longrightarrow> lookup (h @ obs) a = Some ob"
  by (auto simp: lookup_def nth_append split: if_splits)

lemma cursor_yields_append:
  assumes "cursor_yields h it xs"
  shows "cursor_yields (h @ obs) it xs"
proof -
  from assms obtain ob where l: "lookup h it = Some ob" "is_cursor ob"
    using cursor_yields_is_cursor by blast
  then have l': "lookup (h @ obs) it = Some ob" by (simp add: lookup_append_Some)
  show ?thesis
  proof (cases ob)
    case (GenObj g)
    with l l' assms show ?thesis by (simp add: cursor_yields_def)
  next
    case (ListIterObj so i)
    show ?thesis
    proof (cases so)
      case None
      with ListIterObj l l' assms show ?thesis by (simp add: cursor_yields_def)
    next
      case (Some s)
      with ListIterObj l assms obtain ys where
        ys: "lookup h s = Some (ListObj ys)" "xs = drop i ys"
        by (auto simp: cursor_yields_def split: option.splits obj.splits)
      from ys(1) have "lookup (h @ obs) s = Some (ListObj ys)" by (rule lookup_append_Some)
      with Some ListIterObj l' ys(2) show ?thesis by (simp add: cursor_yields_def)
    qed
  qed (use l in simp_all)
qed

lemma lookup_update_other: "a \<noteq> b \<Longrightarrow> lookup (h[a := ob]) b = lookup h b"
  by (simp add: lookup_def)

lemma py_nexts_other:
  assumes "cursor_yields h a ys" and "cursor_yields h b xs" and "a \<noteq> b"
  shows "lookup (snd (py_nexts n h a)) b = lookup h b
       \<and> cursor_yields (snd (py_nexts n h a)) b xs"
proof -
  from cursor_yields_is_cursor [OF assms(1)] have ca: "a < length h \<longrightarrow> is_cursor (h ! a)"
    by (auto simp: lookup_Some_iff)
  from py_nexts_update [of n h a] obtain ob' where
    u: "snd (py_nexts n h a) = h[a := ob']" by blast
  have "cursor_yields (h[a := ob']) b xs"
    using assms(2,3) ca by (rule cursor_yields_update_other)
  with u assms(3) show ?thesis by (simp add: lookup_update_other)
qed

lemma py_nexts_own:
  assumes "cursor_yields h a xs"
  shows "cursor_yields (snd (py_nexts n h a)) a (drop n xs)"
  using assms
proof (induction n arbitrary: h xs)
  case 0
  then show ?case by simp
next
  case (Suc n)
  show ?case
  proof (cases xs)
    case Nil
    with Suc.prems py_next_cursor_Nil [of h a] obtain ob where
      nx: "py_next h a = (Inr None, h[a := ob])" and cy: "cursor_yields (h[a := ob]) a []"
      by blast
    from Suc.IH [OF cy] nx Nil show ?thesis by (simp add: case_prod_unfold)
  next
    case (Cons x xs')
    with Suc.prems py_next_cursor_Cons [of h a x xs'] obtain ob where
      nx: "py_next h a = (Inr (Some x), h[a := ob])" and cy: "cursor_yields (h[a := ob]) a xs'"
      by blast
    from Suc.IH [OF cy] nx Cons show ?thesis by (simp add: case_prod_unfold)
  qed
qed

section \<open>Facts about floats\<close>


lemma floor_log2_le:
  assumes "0 < x"
  shows "2 powi (floor_log2 x) \<le> x"
proof -
  obtain a b where q: "quotient_of x = (a, b)" by (cases "quotient_of x")
  then have x: "x = of_int a / of_int b" and b: "0 < b"
    by (simp_all add: quotient_of_div quotient_of_denom_pos)
  from assms x b have a: "0 < a" by (simp add: zero_less_divide_iff)
  let ?d = "bitlen a - bitlen b"
  have low: "2 powi (?d - 1) \<le> x"
  proof -
    from bitlen_bounds [OF a] have la: "2 ^ nat (bitlen a - 1) \<le> a" by simp
    from bitlen_bounds [OF b] have ub: "b \<le> 2 ^ nat (bitlen b)" by simp
    from a have ba: "1 \<le> bitlen a" by (simp add: bitlen_alt_def)
    from b have bb: "1 \<le> bitlen b" by (simp add: bitlen_alt_def)
    have la': "(2::rat) ^ nat (bitlen a - 1) \<le> of_int a"
      using la by (metis of_int_le_iff of_int_numeral of_int_power)
    have ub': "of_int b \<le> (2::rat) ^ nat (bitlen b)"
      using ub by (metis of_int_le_iff of_int_numeral of_int_power)
    have "?d - 1 = (bitlen a - 1) - bitlen b" by simp
    then have "(2::rat) powi (?d - 1) = 2 powi ((bitlen a - 1) - bitlen b)" by (simp only:)
    also have "\<dots> = 2 powi (bitlen a - 1) / 2 powi (bitlen b)"
      by (rule power_int_diff) simp
    also have "\<dots> = 2 ^ nat (bitlen a - 1) / 2 ^ nat (bitlen b)"
      using ba bb by (simp add: power_int_def)
    also have "\<dots> \<le> of_int a / of_int b"
      using la' ub' a b by (intro frac_le) simp_all
    finally show ?thesis using x by simp
  qed
  show ?thesis
  proof (cases "2 powi ?d \<le> x")
    case True
    with q show ?thesis by (simp add: floor_log2_def)
  next
    case False
    with q low show ?thesis by (simp add: floor_log2_def)
  qed
qed








lemma floor_log2_less:
  assumes "0 < x"
  shows "x < 2 powi (floor_log2 x + 1)"
proof -
  obtain a b where q: "quotient_of x = (a, b)" by (cases "quotient_of x")
  then have x: "x = of_int a / of_int b" and b: "0 < b"
    by (simp_all add: quotient_of_div quotient_of_denom_pos)
  from assms x b have a: "0 < a" by (simp add: zero_less_divide_iff)
  let ?d = "bitlen a - bitlen b"
  have up: "x < 2 powi (?d + 1)"
  proof -
    from bitlen_bounds [OF a] have ua: "a < 2 ^ nat (bitlen a)" by simp
    from bitlen_bounds [OF b] have lb: "2 ^ nat (bitlen b - 1) \<le> b" by simp
    from a have ba: "1 \<le> bitlen a" by (simp add: bitlen_alt_def)
    from b have bb: "1 \<le> bitlen b" by (simp add: bitlen_alt_def)
    have ua': "of_int a < (2::rat) ^ nat (bitlen a)"
      using ua by (metis of_int_less_iff of_int_numeral of_int_power)
    have lb': "(2::rat) ^ nat (bitlen b - 1) \<le> of_int b"
      using lb by (metis of_int_le_iff of_int_numeral of_int_power)
    have "of_int a / of_int b < (2::rat) ^ nat (bitlen a) / 2 ^ nat (bitlen b - 1)"
      using ua' lb' a b by (intro frac_less) simp_all
    also have "\<dots> = 2 powi (bitlen a) / 2 powi (bitlen b - 1)"
      using ba bb by (simp add: power_int_def)
    also have "\<dots> = 2 powi (bitlen a - (bitlen b - 1))"
      by (rule power_int_diff [symmetric]) simp
    also have "bitlen a - (bitlen b - 1) = ?d + 1" by simp
    finally show ?thesis using x by simp
  qed
  show ?thesis
  proof (cases "2 powi ?d \<le> x")
    case True
    with q up show ?thesis by (simp add: floor_log2_def)
  next
    case False
    with q show ?thesis by (simp add: floor_log2_def)
  qed
qed

lemma floor_log2_eqI:
  assumes "2 powi e \<le> x" and "x < 2 powi (e + 1)"
  shows "floor_log2 x = e"
proof -
  have pos: "0 < x"
    using assms(1) zero_less_power_int [of "2::rat" e] by linarith
  let ?f = "floor_log2 x"
  have "(2::rat) powi e < 2 powi (?f + 1)"
    using assms(1) floor_log2_less [OF pos] by linarith
  then have 1: "e < ?f + 1"
    using power_int_increasing [of "?f + 1" e "2::rat"] by (cases "e < ?f + 1") simp_all
  have "(2::rat) powi ?f < 2 powi (e + 1)"
    using assms(2) floor_log2_le [OF pos] by linarith
  then have 2: "?f < e + 1"
    using power_int_increasing [of "e + 1" ?f "2::rat"] by (cases "?f < e + 1") simp_all
  from 1 2 show ?thesis by simp
qed

lemma round_half_even_eqI:
  assumes "\<bar>of_int m - x\<bar> < 1 / 2"
  shows "round_half_even x = m"
proof -
  have fl: "of_int \<lfloor>x\<rfloor> \<le> x" "x < of_int \<lfloor>x\<rfloor> + 1" by linarith+
  consider "m = \<lfloor>x\<rfloor>" | "m = \<lfloor>x\<rfloor> + 1"
  proof -
    from assms fl have "of_int m < (of_int \<lfloor>x\<rfloor> :: rat) + 2" by linarith
    then have "of_int m < (of_int (\<lfloor>x\<rfloor> + 2) :: rat)" by simp
    then have "m < \<lfloor>x\<rfloor> + 2" by (simp only: of_int_less_iff)
    moreover from assms fl have "(of_int \<lfloor>x\<rfloor> :: rat) - 1 < of_int m" by linarith
    then have "(of_int (\<lfloor>x\<rfloor> - 1) :: rat) < of_int m" by simp
    then have "\<lfloor>x\<rfloor> - 1 < m" by (simp only: of_int_less_iff)
    ultimately have "m = \<lfloor>x\<rfloor> \<or> m = \<lfloor>x\<rfloor> + 1" by linarith
    then show ?thesis using that by blast
  qed
  then show ?thesis
  proof cases
    case 1
    with assms have "x - of_int \<lfloor>x\<rfloor> < 1 / 2" by linarith
    with 1 show ?thesis by (simp add: round_half_even_def Let_def)
  next
    case 2
    with assms have "\<bar>of_int \<lfloor>x\<rfloor> + 1 - x\<bar> < 1 / 2" by simp
    then have "1 / 2 < x - of_int \<lfloor>x\<rfloor>" by linarith
    with 2 show ?thesis by (simp add: round_half_even_def Let_def)
  qed
qed

lemma round_double_eqI:
  assumes "2 powi e \<le> \<bar>x\<bar>" and "\<bar>x\<bar> < 2 powi (e + 1)" and "- 1022 \<le> e"
    and "\<bar>of_int m - x / 2 powi (e - 52)\<bar> < 1 / 2"
  shows "round_double x = of_int m * 2 powi (e - 52)"
proof -
  have "0 < \<bar>x\<bar>"
    using assms(1) zero_less_power_int [of "2::rat" e] by linarith
  then have nz: "x \<noteq> 0" by simp
  have e: "floor_log2 \<bar>x\<bar> = e" using assms(1,2) by (rule floor_log2_eqI)
  with assms(3) have "max (floor_log2 \<bar>x\<bar>) (- 1022) = e" by simp
  with nz round_half_even_eqI [OF assms(4)] show ?thesis
    by (simp add: round_double_def Let_def)
qed

lemma true_div_1500_130: "true_div 1500 130 = Inr (6495576385630523 / 562949953421312)"
proof -
  have p: "(2::rat) powi (3 - 52) = 1 / 562949953421312"
    by (simp add: power_int_minus_divide)
  have "round_double (of_int 1500 / of_int 130) = of_int 6495576385630523 * 2 powi (3 - 52)"
    by (rule round_double_eqI) (simp_all add: p)
  then show ?thesis by (simp add: true_div_def Let_def p)
qed

lemma true_div_3500_130: "true_div 3500 130 = Inr (7578172449902277 / 281474976710656)"
proof -
  have p: "(2::rat) powi (4 - 52) = 1 / 281474976710656"
    by (simp add: power_int_minus_divide)
  have "round_double (of_int 3500 / of_int 130) = of_int 7578172449902277 * 2 powi (4 - 52)"
    by (rule round_double_eqI) (simp_all add: p)
  then show ?thesis by (simp add: true_div_def Let_def p)
qed

lemma true_div_8000_130: "true_div 8000 130 = Inr (8660768514174031 / 140737488355328)"
proof -
  have p: "(2::rat) powi (5 - 52) = 1 / 140737488355328"
    by (simp add: power_int_minus_divide)
  have "round_double (of_int 8000 / of_int 130) = of_int 8660768514174031 * 2 powi (5 - 52)"
    by (rule round_double_eqI) (simp_all add: p)
  then show ?thesis by (simp add: true_div_def Let_def p)
qed

lemma float_add_first:
  "float_add 0 (6495576385630523 / 562949953421312) = Some (6495576385630523 / 562949953421312)"
proof -
  have p: "(2::rat) powi (3 - 52) = 1 / 562949953421312"
    by (simp add: power_int_minus_divide)
  have "round_double (6495576385630523 / 562949953421312)
          = of_int 6495576385630523 * 2 powi (3 - 52)"
    by (rule round_double_eqI) (simp_all add: p)
  then show ?thesis by (simp add: float_add_def Let_def p)
qed

lemma float_add_second:
  "float_add (6495576385630523 / 562949953421312) (7578172449902277 / 281474976710656)
     = Some (5412980321358769 / 140737488355328)"
proof -
  have p: "(2::rat) powi (5 - 52) = 1 / 140737488355328"
    by (simp add: power_int_minus_divide)
  have "round_double (6495576385630523 / 562949953421312 + 7578172449902277 / 281474976710656)
          = of_int 5412980321358769 * 2 powi (5 - 52)"
    by (rule round_double_eqI) (simp_all add: p)
  then show ?thesis by (simp add: float_add_def Let_def p)
qed

lemma float_add_third:
  "float_add (5412980321358769 / 140737488355328) (8660768514174031 / 140737488355328)
     = Some 100"
proof -
  have p: "(2::rat) powi (6 - 52) = 1 / 70368744177664"
    by (simp add: power_int_minus_divide)
  have "round_double (5412980321358769 / 140737488355328 + 8660768514174031 / 140737488355328)
          = of_int 7036874417766400 * 2 powi (6 - 52)"
    by (rule round_double_eqI) (simp_all add: p)
  then show ?thesis by (simp add: float_add_def Let_def p)
qed





















section \<open>Facts about normalize\<close>

text \<open>The loop of normalize as a function of the total and the values.\<close>

lemma normalize_container:
  assumes "container_holds w h c xs"
  shows "\<exists>ob1 ob2. normalize w h c =
           (fold_err (\<lambda>result value.
                        case true_div (100 * value) (sum_list xs) of
                          Inl e \<Rightarrow> Inl e
                        | Inr percent \<Rightarrow> Inr (result @ [percent])) [] xs,
            h @ [ob1, ob2])"
proof -
  from py_sum_container [OF assms] obtain ob1 where
    s: "py_sum w h c = (Inr (sum_list xs), h @ [ob1])" by blast
  have "container_holds w (h @ [ob1]) c xs"
    using assms by (rule container_holds_append)
  from py_iter_container [OF this] obtain ob0 where
    it: "py_iter w (h @ [ob1]) c = (Inr (Suc (length h)), h @ [ob1] @ [ob0])"
    and cy: "cursor_yields (h @ [ob1] @ [ob0]) (Suc (length h)) xs"
    by auto
  from for_each_cursor [OF cy] s it show ?thesis
    by (fastforce simp: normalize_def list_update_append)
qed

lemma normalize_cursor:
  assumes "cursor_yields h it xs"
  shows "\<exists>ob. normalize w h it = (Inr [], h[it := ob]) \<and> cursor_yields (h[it := ob]) it []"
proof -
  from py_sum_cursor [OF assms] obtain ob1 where
    s: "py_sum w h it = (Inr (sum_list xs), h[it := ob1])"
    and cy: "cursor_yields (h[it := ob1]) it []"
    by blast
  from for_each_cursor [OF cy] py_iter_cursor [OF cy] s show ?thesis
    by (fastforce simp: normalize_def)
qed

lemma normalize_copy_unfold:
  "normalize_copy w h numbers =
     (case py_list w h numbers of
        (Inl e, h0) \<Rightarrow> (Inl e, h0)
      | (Inr numbers_copy, h0) \<Rightarrow> normalize w h0 numbers_copy)"
  unfolding normalize_copy_def normalize_def ..

lemma fold_err_percent_zero_total:
  "xs \<noteq> [] \<Longrightarrow>
   fold_err (\<lambda>result value.
               case true_div (100 * value) 0 of
                 Inl e \<Rightarrow> Inl e
               | Inr percent \<Rightarrow> Inr (result @ [percent])) acc xs
     = Inl ZeroDivisionError"
  by (cases xs) (simp_all add: true_div_def)

lemma normalize_container_fst:
  assumes "container_holds w h c xs"
  shows "fst (normalize w h c) =
           fold_err (\<lambda>result value.
                        case true_div (100 * value) (sum_list xs) of
                          Inl e \<Rightarrow> Inl e
                        | Inr percent \<Rightarrow> Inr (result @ [percent])) [] xs"
  using normalize_container [OF assms] by auto



lemma normalize_15_35_80:
  "fst (normalize w [ListObj [15, 35, 80]] 0)
     = Inr [6495576385630523 / 562949953421312,
            7578172449902277 / 281474976710656,
            8660768514174031 / 140737488355328]"
proof -
  have "container_holds w [ListObj [15, 35, 80]] 0 [15, 35, 80]"
    by (simp add: container_holds_def lookup_def)
  from normalize_container_fst [OF this] show ?thesis
    by (simp add: true_div_1500_130 true_div_3500_130 true_div_8000_130)
qed

lemma normalize_defensive_container:
  assumes "container_holds w h c xs"
  shows "fst (normalize_defensive w h c) = fst (normalize w h c)"
proof -
  from py_iter_container [OF assms] obtain ob where
    it: "py_iter w h c = (Inr (length h), h @ [ob])" by blast
  from assms have "c < length h" by (rule container_holds_lt)
  with it have "normalize_defensive w h c = normalize w (h @ [ob]) c"
    by (simp add: normalize_defensive_def iter_is_self_def normalize_def)
  moreover have "container_holds w (h @ [ob]) c xs"
    using assms by (rule container_holds_append)
  ultimately show ?thesis
    by (simp add: normalize_container_fst [OF assms] normalize_container_fst)
qed

lemma normalize_func_read_values:
  assumes "drain (read_values w p) = Inr xs"
  shows "fst (normalize_func w (read_values_call w p) h)
           = fold_err (\<lambda>result value.
                         case true_div (100 * value) (sum_list xs) of
                           Inl e \<Rightarrow> Inl e
                         | Inr percent \<Rightarrow> Inr (result @ [percent])) [] xs"
proof -
  let ?g = "GenObj (read_values w p)"
  have call: "\<And>h0. read_values_call w p h0 = (Inr (length h0), h0 @ [?g])"
    by (simp add: read_values_call_def alloc_def)
  have cy: "\<And>h0. cursor_yields (h0 @ [?g]) (length h0) xs"
    using assms by (simp add: cursor_yields_def lookup_append)
  from py_sum_cursor [OF cy, of w h] obtain ob where
    s: "py_sum w (h @ [?g]) (length h) = (Inr (sum_list xs), (h @ [?g])[length h := ob])"
    by blast
  let ?h1 = "(h @ [?g])[length h := ob]"
  let ?body = "\<lambda>result value.
                 case true_div (100 * value) (sum_list xs) of
                   Inl e \<Rightarrow> Inl e
                 | Inr percent \<Rightarrow> Inr (result @ [percent])"
  from for_each_cursor [OF cy [of ?h1], of ?body "[]"] obtain ob2 where
    fe: "for_each (?h1 @ [?g]) (length ?h1) ?body []
           = (fold_err ?body [] xs, (?h1 @ [?g])[length ?h1 := ob2])"
    by blast
  show ?thesis
    unfolding normalize_func_def
    by (simp only: call [of h] call [of ?h1] s py_iter_cursor [OF cy [of ?h1], of w] fe
                   prod.case sum.case fst_conv)
qed



lemma normalize_copy_cursor:
  assumes "cursor_yields h it xs"
  shows "\<exists>ob ob1 ob2. is_cursor ob \<and> cursor_yields (h[it := ob]) it []
           \<and> normalize_copy w h it = normalize w (h[it := ob] @ [ListObj xs]) (length h)
           \<and> snd (normalize_copy w h it) = h[it := ob] @ [ListObj xs, ob1, ob2]"
proof -
  from py_list_cursor [OF assms, of w] obtain ob where
    pl: "py_list w h it = (Inr (length h), h[it := ob] @ [ListObj xs])"
    and c: "is_cursor ob" and cy: "cursor_yields (h[it := ob]) it []"
    by blast
  have eq: "normalize_copy w h it = normalize w (h[it := ob] @ [ListObj xs]) (length h)"
    by (simp add: normalize_copy_unfold pl)
  have "container_holds w (h[it := ob] @ [ListObj xs]) (length h) xs"
    by (simp add: container_holds_def lookup_def nth_append)
  from normalize_container [OF this] obtain ob1 ob2 where
    "snd (normalize w (h[it := ob] @ [ListObj xs]) (length h))
       = (h[it := ob] @ [ListObj xs]) @ [ob1, ob2]"
    by auto
  with eq c cy show ?thesis by auto
qed

lemma normalize_copy_container:
  assumes "container_holds w h c xs"
  shows "\<exists>ob ob1 ob2. is_cursor ob
           \<and> normalize_copy w h c = normalize w (h @ [ob, ListObj xs]) (Suc (length h))
           \<and> snd (normalize_copy w h c) = h @ [ob, ListObj xs, ob1, ob2]"
proof -
  from py_list_container [OF assms] obtain ob where
    pl: "py_list w h c = (Inr (Suc (length h)), h @ [ob, ListObj xs])"
    and c: "is_cursor ob"
    by blast
  have eq: "normalize_copy w h c = normalize w (h @ [ob, ListObj xs]) (Suc (length h))"
    by (simp add: normalize_copy_unfold pl)
  have "container_holds w (h @ [ob, ListObj xs]) (Suc (length h)) xs"
    by (simp add: container_holds_def lookup_def nth_append)
  from normalize_container [OF this] obtain ob1 ob2 where
    "snd (normalize w (h @ [ob, ListObj xs]) (Suc (length h)))
       = (h @ [ob, ListObj xs]) @ [ob1, ob2]"
    by auto
  with eq c show ?thesis by auto
qed

section \<open>The claims\<close>




text \<open>
  \<^bold>\<open>C2.\<close>  A generator whose body is \<open>yield from p1; yield from p2; yield from p3\<close>,
  over children that hand out the finite sequences \<open>xs1\<close>, \<open>xs2\<close>, \<open>xs3\<close>, hands out
  exactly \<open>xs1\<close>, then \<open>xs2\<close>, then \<open>xs3\<close>: consumed whole it gives the concatenation, and
  call by call the first \<open>length (xs1 @ xs2 @ xs3)\<close> calls of \<open>next\<close> return these values
  in order and every later call signals the end of the sequence, so the end is
  signalled only after the last child is exhausted.  \<open>animate_composed\<close> yields \<open>5.0\<close>
  four times, then \<open>0\<close> three times, then \<open>3.0\<close> twice.
\<close>

theorem yield_from_chain_concatenates:
  assumes "drain p1 = Inr xs1" and "drain p2 = Inr xs2" and "drain p3 = Inr xs3"
  shows "run (gseq (yield_from p1) (gseq (yield_from p2) (yield_from p3)))
           = Inr (xs1 @ xs2 @ xs3)
       \<and> nexts n (gseq (yield_from p1) (gseq (yield_from p2) (yield_from p3)))
           = map (\<lambda>v. Inr (Some v)) (take n (xs1 @ xs2 @ xs3))
             @ replicate (n - length (xs1 @ xs2 @ xs3)) (Inr None)
       \<and> run animate_composed
           = Inr [PyFloat 5, PyFloat 5, PyFloat 5, PyFloat 5,
                  PyInt 0, PyInt 0, PyInt 0, PyFloat 3, PyFloat 3]"
proof -
  let ?c = "gseq (yield_from p1) (gseq (yield_from p2) (yield_from p3))"
  from assms have ok: "raises_nothing p1" "raises_nothing p2" "raises_nothing p3"
    and ys: "yielded p1 = xs1" "yielded p2 = xs2" "yielded p3 = xs3"
    using drain_Inr by blast+
  from ok have c_ok: "raises_nothing ?c"
    by (simp add: raises_nothing_gseq raises_nothing_yield_from)
  from ok ys have c_ys: "yielded ?c = xs1 @ xs2 @ xs3"
    by (simp add: yielded_gseq raises_nothing_yield_from yielded_yield_from)
  have "run ?c = Inr (xs1 @ xs2 @ xs3)"
    unfolding run_def using drain_raises_nothing [OF c_ok] c_ys by simp
  moreover have "nexts n ?c = map (\<lambda>v. Inr (Some v)) (take n (xs1 @ xs2 @ xs3))
      @ replicate (n - length (xs1 @ xs2 @ xs3)) (Inr None)"
    using nexts_raises_nothing [OF c_ok, of n] c_ys by simp
  moreover have "run animate_composed
      = Inr [PyFloat 5, PyFloat 5, PyFloat 5, PyFloat 5,
             PyInt 0, PyInt 0, PyInt 0, PyFloat 3, PyFloat 3]"
    by (simp add: run_def animate_composed_unfolded)
  ultimately show ?thesis by blast
qed

theorem yield_from_chain_concatenates_witness:
  "drain (move 4 (PyFloat 5)) = Inr [PyFloat 5, PyFloat 5, PyFloat 5, PyFloat 5]
 \<and> drain (pause 3) = Inr [PyInt 0, PyInt 0, PyInt 0]
 \<and> drain (move 2 (PyFloat 3)) = Inr [PyFloat 3, PyFloat 3]
 \<and> nexts 11 (gseq (yield_from (move 4 (PyFloat 5)))
             (gseq (yield_from (pause 3)) (yield_from (move 2 (PyFloat 3)))))
     = [Inr (Some (PyFloat 5)), Inr (Some (PyFloat 5)), Inr (Some (PyFloat 5)),
        Inr (Some (PyFloat 5)), Inr (Some (PyInt 0)), Inr (Some (PyInt 0)),
        Inr (Some (PyInt 0)), Inr (Some (PyFloat 3)), Inr (Some (PyFloat 3)),
        Inr None, Inr None]"
proof -
  have h1: "drain (move 4 (PyFloat 5)) = Inr [PyFloat 5, PyFloat 5, PyFloat 5, PyFloat 5]"
    by (simp add: move_4)
  have h2: "drain (pause 3) = Inr [PyInt 0, PyInt 0, PyInt 0]"
    by (simp add: pause_3)
  have h3: "drain (move 2 (PyFloat 3)) = Inr [PyFloat 3, PyFloat 3]"
    by (simp add: move_2)
  have eleven: "(11::nat) = Suc (Suc (Suc (Suc (Suc (Suc (Suc (Suc (Suc (Suc (Suc 0))))))))))"
    by simp
  show ?thesis
    using yield_from_chain_concatenates [OF h1 h2 h3, of 11] h1 h2 h3
    by (simp add: eleven)
qed

text \<open>
  \<^bold>\<open>C3.\<close>  Once \<open>next\<close> on an iterator (a generator object or a list iterator) has
  reported the end of the sequence, every later \<open>next\<close> on it reports the end again: no
  exception, no value, and the store no longer changes.
\<close>

theorem exhausted_cursor_stays_exhausted:
  assumes "py_next h it = (Inr None, h')"
  shows "py_nexts n h' it = (replicate n (Inr None), h')"
  using py_next_exhausted_stable [OF assms] by (rule py_nexts_exhausted)

theorem exhausted_cursor_stays_exhausted_witness:
  "py_next [GenObj (Yield 7 Done)] 0 = (Inr (Some 7), [GenObj Done])
 \<and> py_next [GenObj Done] 0 = (Inr None, [GenObj Done])
 \<and> py_nexts 3 [GenObj Done] 0 = ([Inr None, Inr None, Inr None], [GenObj Done])
 \<and> py_next [ListObj [15], ListIterObj (Some 0) 1] 1
       = (Inr None, [ListObj [15], ListIterObj None 1])
 \<and> py_nexts 2 [ListObj [15], ListIterObj None 1] 1
       = ([Inr None, Inr None], [ListObj [15], ListIterObj None 1])"
proof -
  have g: "py_next [GenObj Done] 0 = (Inr None, [GenObj Done])"
    by (simp add: py_next_def lookup_def)
  have l: "py_next [ListObj [15], ListIterObj (Some 0) 1] 1
             = (Inr None, [ListObj [15], ListIterObj None 1])"
    by (simp add: py_next_def lookup_def)
  have "py_next [GenObj (Yield 7 Done)] 0 = (Inr (Some 7), [GenObj Done])"
    by (simp add: py_next_def lookup_def)
  then show ?thesis
    using exhausted_cursor_stays_exhausted [OF g, of 3]
          exhausted_cursor_stays_exhausted [OF l, of 2] g l
    by (simp add: numeral_3_eq_3 numeral_2_eq_2)
qed

text \<open>
  \<^bold>\<open>C4.\<close>  Given a bare iterator (a list iterator or a generator object, for which
  \<open>iter\<close> answers with the object itself), \<open>normalize_defensive\<close> raises
  \<open>TypeError('Must supply a container')\<close>, the error the specification calls
  \<open>NotReusableError\<close>: it returns no result and leaves the iterator untouched.
\<close>

theorem normalize_defensive_rejects_iterator:
  assumes "lookup h numbers = Some ob" and "is_cursor ob"
  shows "py_iter w h numbers = (Inr numbers, h)
       \<and> fst (classify w h numbers) = Inr SinglePassIterator
       \<and> normalize_defensive w h numbers = (Inl (TypeError ''Must supply a container''), h)"
proof -
  from assms have "py_iter w h numbers = (Inr numbers, h)"
    by (cases ob) (simp_all add: py_iter_def)
  then show ?thesis
    by (simp add: classify_def normalize_defensive_def iter_is_self_def)
qed

theorem normalize_defensive_rejects_iterator_witness:
  "py_iter sample_world [ListObj [15, 35, 80]] 0
     = (Inr 1, [ListObj [15, 35, 80], ListIterObj (Some 0) 0])
 \<and> lookup [ListObj [15, 35, 80], ListIterObj (Some 0) 0] 1 = Some (ListIterObj (Some 0) 0)
 \<and> is_cursor (ListIterObj (Some 0) 0)
 \<and> normalize_defensive sample_world [ListObj [15, 35, 80], ListIterObj (Some 0) 0] 1
     = (Inl (TypeError ''Must supply a container''),
        [ListObj [15, 35, 80], ListIterObj (Some 0) 0])"
proof -
  have l: "lookup [ListObj [15, 35, 80], ListIterObj (Some 0) 0] 1 = Some (ListIterObj (Some 0) 0)"
    by (simp add: lookup_def)
  have c: "is_cursor (ListIterObj (Some 0) 0)" by simp
  have "py_iter sample_world [ListObj [15, 35, 80]] 0
          = (Inr 1, [ListObj [15, 35, 80], ListIterObj (Some 0) 0])"
    by (simp add: py_iter_def lookup_def alloc_def)
  then show ?thesis
    using normalize_defensive_rejects_iterator [OF l c, of sample_world] l by simp
qed

text \<open>
  \<^bold>\<open>C5\<close> as the code has it.  For every container (a list, or a \<open>ReadValues\<close>
  instance whose file reads without error) that holds at least one value and whose
  values total zero, in particular the list \<open>[0, 0, 0]\<close>, \<open>normalize\<close> raises
  \<open>ZeroDivisionError\<close> (the specification's \<open>DivisionUndefinedError\<close>) and returns no
  result: the division for the first value raises.
\<close>

theorem normalize_zero_total_raises:
  assumes "container_holds w h c xs" and "xs \<noteq> []" and "sum_list xs = 0"
  shows "fst (normalize w h c) = Inl ZeroDivisionError"
  using normalize_container_fst [OF assms(1)] fold_err_percent_zero_total [OF assms(2)] assms(3)
  by simp

theorem normalize_zero_total_raises_witness:
  "container_holds sample_world [ListObj [0, 0, 0]] 0 [0, 0, 0]
 \<and> [0, 0, 0 :: int] \<noteq> []
 \<and> sum_list [0, 0, 0 :: int] = 0
 \<and> fst (normalize sample_world [ListObj [0, 0, 0]] 0) = Inl ZeroDivisionError"
proof -
  have ch: "container_holds sample_world [ListObj [0, 0, 0]] 0 [0, 0, 0]"
    by (simp add: container_holds_def lookup_def)
  have ne: "[0, 0, 0 :: int] \<noteq> []" by simp
  have z: "sum_list [0, 0, 0 :: int] = 0" by simp
  from normalize_zero_total_raises [OF ch ne z] ch show ?thesis by simp
qed

text \<open>
  The claim as written, for every source whose values total zero, fails: the values of
  the empty list total zero and \<open>normalize\<close> returns \<open>[]\<close> for it, since the loop body
  with the division never runs; and for an iterator over \<open>[0, 0, 0]\<close> it returns \<open>[]\<close>
  as well, since \<open>sum\<close> leaves the iterator exhausted.
\<close>

theorem normalize_zero_total_counterexample:
  "container_holds sample_world [ListObj []] 0 []
 \<and> sum_list ([] :: int list) = 0
 \<and> fst (normalize sample_world [ListObj []] 0) = Inr []
 \<and> cursor_yields [ListObj [0, 0, 0], ListIterObj (Some 0) 0] 1 [0, 0, 0]
 \<and> sum_list [0, 0, 0 :: int] = 0
 \<and> fst (normalize sample_world [ListObj [0, 0, 0], ListIterObj (Some 0) 0] 1) = Inr []"
  by code_simp

text \<open>
  \<^bold>\<open>C6.\<close>  The test \<open>iter(x) is x\<close>, read as a classification: a container (a list
  or a \<open>ReadValues\<close> instance) is classified \<open>Container\<close>, because \<open>iter\<close> answers with a
  new object; the iterator that \<open>iter\<close> made for it is classified \<open>SinglePassIterator\<close>,
  because \<open>iter\<close> answers with that same iterator.  For every object the classification
  is \<open>SinglePassIterator\<close> exactly when \<open>iter\<close> answers with the object itself.
\<close>

theorem classify_by_identity_of_iter:
  assumes "lookup h c = Some ob" and "\<not> is_cursor ob"
  shows "(\<exists>it h1. py_iter w h c = (Inr it, h1) \<and> it \<noteq> c
            \<and> classify w h c = (Inr Container, h1)
            \<and> fst (classify w h1 it) = Inr SinglePassIterator)
       \<and> (\<forall>h0 src r h'. py_iter w h0 src = (Inr r, h') \<longrightarrow>
            classify w h0 src
              = (Inr (if r = src then SinglePassIterator else Container), h'))"
proof -
  from assms(1) have lt: "c < length h" by (simp add: lookup_Some_iff)
  from assms obtain ob' where
    it: "py_iter w h c = (Inr (length h), h @ [ob'])" and c': "is_cursor ob'"
    by (cases ob) (auto simp: py_iter_def alloc_def)
  have l: "lookup (h @ [ob']) (length h) = Some ob'" by (simp add: lookup_append)
  from c' l have it2: "py_iter w (h @ [ob']) (length h) = (Inr (length h), h @ [ob'])"
    by (cases ob') (simp_all add: py_iter_def)
  have rule: "\<forall>h0 src r h'. py_iter w h0 src = (Inr r, h') \<longrightarrow>
      classify w h0 src = (Inr (if r = src then SinglePassIterator else Container), h')"
    by (simp add: classify_def iter_is_self_def)
  from it it2 lt have "py_iter w h c = (Inr (length h), h @ [ob']) \<and> length h \<noteq> c
      \<and> classify w h c = (Inr Container, h @ [ob'])
      \<and> fst (classify w (h @ [ob']) (length h)) = Inr SinglePassIterator"
    by (simp add: classify_def iter_is_self_def)
  with rule show ?thesis by blast
qed

theorem classify_by_identity_of_iter_witness:
  "lookup [ListObj [15, 35, 80]] 0 = Some (ListObj [15, 35, 80])
 \<and> \<not> is_cursor (ListObj [15, 35, 80])
 \<and> py_iter sample_world [ListObj [15, 35, 80]] 0
     = (Inr 1, [ListObj [15, 35, 80], ListIterObj (Some 0) 0])
 \<and> classify sample_world [ListObj [15, 35, 80]] 0
     = (Inr Container, [ListObj [15, 35, 80], ListIterObj (Some 0) 0])
 \<and> classify sample_world [ListObj [15, 35, 80], ListIterObj (Some 0) 0] 1
     = (Inr SinglePassIterator, [ListObj [15, 35, 80], ListIterObj (Some 0) 0])"
proof -
  have l: "lookup [ListObj [15, 35, 80]] 0 = Some (ListObj [15, 35, 80])"
    by (simp add: lookup_def)
  have c: "\<not> is_cursor (ListObj [15, 35, 80])" by simp
  have it: "py_iter sample_world [ListObj [15, 35, 80]] 0
          = (Inr 1, [ListObj [15, 35, 80], ListIterObj (Some 0) 0])"
    by (simp add: py_iter_def lookup_def alloc_def)
  have it2: "py_iter sample_world [ListObj [15, 35, 80], ListIterObj (Some 0) 0] 1
          = (Inr 1, [ListObj [15, 35, 80], ListIterObj (Some 0) 0])"
    by (simp add: py_iter_def lookup_def)
  from classify_by_identity_of_iter [OF l c, of sample_world]
  have "\<forall>h0 src r h'. py_iter sample_world h0 src = (Inr r, h') \<longrightarrow>
      classify sample_world h0 src
        = (Inr (if r = src then SinglePassIterator else Container), h')"
    by blast
  with it it2 l c show ?thesis by simp
qed

text \<open>
  \<^bold>\<open>C7.\<close>  Asking a container (a list, or a \<open>ReadValues\<close> instance) holding \<open>xs\<close>
  for an iterator twice gives two different iterator objects \<open>a\<close> and \<open>b\<close>, each with all
  of \<open>xs\<close> to hand out.  Reads of one never touch the other, in either direction:
  whatever number \<open>n\<close> of \<open>next\<close> calls is made on \<open>a\<close>, the object \<open>b\<close> is the same as
  before, it still has all of \<open>xs\<close> to hand out, and \<open>m\<close> calls of \<open>next\<close> on it return the
  first \<open>m\<close> values of \<open>xs\<close> (and the end after them); and the same with \<open>a\<close> and \<open>b\<close>
  exchanged.  After its own \<open>n\<close> reads \<open>a\<close> has \<open>drop n xs\<close> left, and \<open>m\<close> reads of \<open>b\<close>
  made then leave \<open>a\<close> at that position.  Also an iterator asked for only after \<open>a\<close> was
  advanced starts at the first value.
\<close>

theorem container_cursors_independent:
  assumes "container_holds w h c xs"
  shows "let a = length h; h1 = snd (py_iter w h c);
             b = Suc (length h); h2 = snd (py_iter w h1 c)
         in fst (py_iter w h c) = Inr a \<and> fst (py_iter w h1 c) = Inr b \<and> a \<noteq> b
          \<and> cursor_yields h2 a xs \<and> cursor_yields h2 b xs
          \<and> lookup (snd (py_nexts n h2 a)) b = lookup h2 b
          \<and> cursor_yields (snd (py_nexts n h2 a)) b xs
          \<and> fst (py_nexts m (snd (py_nexts n h2 a)) b)
              = map (\<lambda>v. Inr (Some v)) (take m xs) @ replicate (m - length xs) (Inr None)
          \<and> lookup (snd (py_nexts n h2 b)) a = lookup h2 a
          \<and> cursor_yields (snd (py_nexts n h2 b)) a xs
          \<and> fst (py_nexts m (snd (py_nexts n h2 b)) a)
              = map (\<lambda>v. Inr (Some v)) (take m xs) @ replicate (m - length xs) (Inr None)
          \<and> cursor_yields (snd (py_nexts n h2 a)) a (drop n xs)
          \<and> lookup (snd (py_nexts m (snd (py_nexts n h2 a)) b)) a
              = lookup (snd (py_nexts n h2 a)) a
          \<and> cursor_yields (snd (py_nexts m (snd (py_nexts n h2 a)) b)) a (drop n xs)
          \<and> fst (py_iter w (snd (py_nexts n h1 a)) c) = Inr b
          \<and> cursor_yields (snd (py_iter w (snd (py_nexts n h1 a)) c)) b xs"
proof -
  from py_iter_container [OF assms] obtain oa where
    ia: "py_iter w h c = (Inr (length h), h @ [oa])" and ca: "is_cursor oa"
    and ya: "cursor_yields (h @ [oa]) (length h) xs"
    by blast
  have ch1: "container_holds w (h @ [oa]) c xs"
    using assms by (rule container_holds_append)
  from py_iter_container [OF ch1] obtain ob where
    ib: "py_iter w (h @ [oa]) c = (Inr (Suc (length h)), h @ [oa, ob])" and cb: "is_cursor ob"
    and yb: "cursor_yields (h @ [oa, ob]) (Suc (length h)) xs"
    by auto
  let ?a = "length h" and ?b = "Suc (length h)"
  let ?h1 = "h @ [oa]" and ?h2 = "h @ [oa, ob]"
  have ne: "?a \<noteq> ?b" by simp
  have nth1: "?h1 ! ?a = oa" by (simp add: nth_append)
  have ya2: "cursor_yields ?h2 ?a xs"
    using cursor_yields_append [OF ya, of "[ob]"] by simp
  from py_nexts_other [OF ya2 yb ne, of n] have
    ab1: "lookup (snd (py_nexts n ?h2 ?a)) ?b = lookup ?h2 ?b"
    and ab2: "cursor_yields (snd (py_nexts n ?h2 ?a)) ?b xs"
    by simp_all
  note ab3 = py_nexts_cursor [OF ab2, of m]
  from py_nexts_other [OF yb ya2 ne [symmetric], of n] have
    ba1: "lookup (snd (py_nexts n ?h2 ?b)) ?a = lookup ?h2 ?a"
    and ba2: "cursor_yields (snd (py_nexts n ?h2 ?b)) ?a xs"
    by simp_all
  note ba3 = py_nexts_cursor [OF ba2, of m]
  have own: "cursor_yields (snd (py_nexts n ?h2 ?a)) ?a (drop n xs)"
    using ya2 by (rule py_nexts_own)
  from py_nexts_other [OF ab2 own ne [symmetric], of m] have
    il1: "lookup (snd (py_nexts m (snd (py_nexts n ?h2 ?a)) ?b)) ?a
            = lookup (snd (py_nexts n ?h2 ?a)) ?a"
    and il2: "cursor_yields (snd (py_nexts m (snd (py_nexts n ?h2 ?a)) ?b)) ?a (drop n xs)"
    by simp_all
  from py_nexts_update [of n ?h1 ?a] nth1 ca obtain oa'' where
    u1: "snd (py_nexts n ?h1 ?a) = ?h1[?a := oa'']" by auto
  have ch1': "container_holds w (?h1[?a := oa'']) c xs"
    using ch1 by (rule container_holds_update_cursor) (simp add: nth1 ca)
  from py_iter_container [OF ch1'] obtain ob' where
    ib': "py_iter w (?h1[?a := oa'']) c = (Inr ?b, ?h1[?a := oa''] @ [ob'])"
    and yb'': "cursor_yields (?h1[?a := oa''] @ [ob']) ?b xs"
    by auto
  have late: "fst (py_iter w (snd (py_nexts n ?h1 ?a)) c) = Inr ?b"
    "cursor_yields (snd (py_iter w (snd (py_nexts n ?h1 ?a)) c)) ?b xs"
    using ib' yb'' by (simp_all only: u1 fst_conv snd_conv)
  show ?thesis
    unfolding Let_def ia ib fst_conv snd_conv
    using ne ya2 yb ab1 ab2 ab3 ba1 ba2 ba3 own il1 il2 late
    by (intro conjI) (rule refl | assumption)+
qed

theorem container_cursors_independent_witness:
  "container_holds sample_world [ReadValuesObj ''../data/values.txt''] 0 [15, 35, 80]
 \<and> py_iter sample_world [ReadValuesObj ''../data/values.txt''] 0
     = (Inr 1, [ReadValuesObj ''../data/values.txt'',
                GenObj (Yield 15 (Yield 35 (Yield 80 Done)))])
 \<and> py_next [ReadValuesObj ''../data/values.txt'',
             GenObj (Yield 15 (Yield 35 (Yield 80 Done)))] 1
     = (Inr (Some 15), [ReadValuesObj ''../data/values.txt'',
                        GenObj (Yield 35 (Yield 80 Done))])
 \<and> py_iter sample_world [ReadValuesObj ''../data/values.txt'',
                          GenObj (Yield 35 (Yield 80 Done))] 0
     = (Inr 2, [ReadValuesObj ''../data/values.txt'',
                GenObj (Yield 35 (Yield 80 Done)),
                GenObj (Yield 15 (Yield 35 (Yield 80 Done)))])
 \<and> fst (py_next [ReadValuesObj ''../data/values.txt'',
                  GenObj (Yield 35 (Yield 80 Done)),
                  GenObj (Yield 15 (Yield 35 (Yield 80 Done)))] 2)
     = Inr (Some 15)
 \<and> container_holds sample_world [ListObj [15, 35, 80]] 0 [15, 35, 80]
 \<and> fst (py_nexts 1
          (snd (py_nexts 1 [ListObj [15, 35, 80], ListIterObj (Some 0) 0,
                            ListIterObj (Some 0) 0] 1)) 2)
     = [Inr (Some 15)]
 \<and> fst (py_nexts 1
          (snd (py_nexts 1 [ListObj [15, 35, 80], ListIterObj (Some 0) 0,
                            ListIterObj (Some 0) 0] 2)) 1)
     = [Inr (Some 15)]"
proof -
  have ch: "container_holds sample_world [ReadValuesObj ''../data/values.txt''] 0 [15, 35, 80]"
    by code_simp
  have ia: "py_iter sample_world [ReadValuesObj ''../data/values.txt''] 0
     = (Inr 1, [ReadValuesObj ''../data/values.txt'',
                GenObj (Yield 15 (Yield 35 (Yield 80 Done)))])"
    by code_simp
  have na: "py_next [ReadValuesObj ''../data/values.txt'',
             GenObj (Yield 15 (Yield 35 (Yield 80 Done)))] 1
     = (Inr (Some 15), [ReadValuesObj ''../data/values.txt'',
                        GenObj (Yield 35 (Yield 80 Done))])"
    by code_simp
  have n1: "py_nexts 1 [ReadValuesObj ''../data/values.txt'',
             GenObj (Yield 15 (Yield 35 (Yield 80 Done)))] 1
     = ([Inr (Some 15)], [ReadValuesObj ''../data/values.txt'',
                        GenObj (Yield 35 (Yield 80 Done))])"
    by code_simp
  have ib: "py_iter sample_world [ReadValuesObj ''../data/values.txt'',
                          GenObj (Yield 35 (Yield 80 Done))] 0
     = (Inr 2, [ReadValuesObj ''../data/values.txt'',
                GenObj (Yield 35 (Yield 80 Done)),
                GenObj (Yield 15 (Yield 35 (Yield 80 Done)))])"
    by code_simp
  have chl: "container_holds sample_world [ListObj [15, 35, 80]] 0 [15, 35, 80]"
    by (simp add: container_holds_def lookup_def)
  have il: "py_iter sample_world [ListObj [15, 35, 80]] 0
     = (Inr 1, [ListObj [15, 35, 80], ListIterObj (Some 0) 0])"
    by code_simp
  have il2: "py_iter sample_world [ListObj [15, 35, 80], ListIterObj (Some 0) 0] 0
     = (Inr 2, [ListObj [15, 35, 80], ListIterObj (Some 0) 0, ListIterObj (Some 0) 0])"
    by code_simp
  have len: "length [ReadValuesObj ''../data/values.txt''] = 1"
    and lenl: "length [ListObj [15, 35, 80]] = 1" by simp_all
  from container_cursors_independent [OF ch, of 1 1]
  have "cursor_yields (snd (py_iter sample_world
            (snd (py_nexts 1 (snd (py_iter sample_world
               [ReadValuesObj ''../data/values.txt''] 0))
               (length [ReadValuesObj ''../data/values.txt''])))
            0)) (Suc (length [ReadValuesObj ''../data/values.txt'']))
          [15, 35, 80]"
    unfolding Let_def by blast
  then have cyb: "cursor_yields [ReadValuesObj ''../data/values.txt'',
                GenObj (Yield 35 (Yield 80 Done)),
                GenObj (Yield 15 (Yield 35 (Yield 80 Done)))] 2 [15, 35, 80]"
    by (simp only: len ia n1 ib snd_conv Suc_1)
  from py_next_cursor_Cons [OF cyb]
  have nb: "fst (py_next [ReadValuesObj ''../data/values.txt'',
                  GenObj (Yield 35 (Yield 80 Done)),
                  GenObj (Yield 15 (Yield 35 (Yield 80 Done)))] 2)
     = Inr (Some 15)"
    by auto
  from container_cursors_independent [OF chl, of 1 1]
  have "fst (py_nexts 1
          (snd (py_nexts 1
             (snd (py_iter sample_world (snd (py_iter sample_world [ListObj [15, 35, 80]] 0)) 0))
             (length [ListObj [15, 35, 80]])))
          (Suc (length [ListObj [15, 35, 80]])))
     = map (\<lambda>v. Inr (Some v)) (take 1 [15, 35, 80])
       @ replicate (1 - length [15, 35, 80 :: int]) (Inr None)"
    unfolding Let_def by blast
  then have "fst (py_nexts 1
          (snd (py_nexts 1 [ListObj [15, 35, 80], ListIterObj (Some 0) 0,
                            ListIterObj (Some 0) 0] 1)) 2)
     = map (\<lambda>v. Inr (Some v)) (take 1 [15, 35, 80])
       @ replicate (1 - length [15, 35, 80 :: int]) (Inr None)"
    by (simp only: lenl il il2 snd_conv Suc_1)
  then have "fst (py_nexts 1
          (snd (py_nexts 1 [ListObj [15, 35, 80], ListIterObj (Some 0) 0,
                            ListIterObj (Some 0) 0] 1)) 2)
     = [Inr (Some 15)]"
    by simp
  moreover from container_cursors_independent [OF chl, of 1 1]
  have "fst (py_nexts 1
          (snd (py_nexts 1
             (snd (py_iter sample_world (snd (py_iter sample_world [ListObj [15, 35, 80]] 0)) 0))
             (Suc (length [ListObj [15, 35, 80]]))))
          (length [ListObj [15, 35, 80]]))
     = map (\<lambda>v. Inr (Some v)) (take 1 [15, 35, 80])
       @ replicate (1 - length [15, 35, 80 :: int]) (Inr None)"
    unfolding Let_def by blast
  then have "fst (py_nexts 1
          (snd (py_nexts 1 [ListObj [15, 35, 80], ListIterObj (Some 0) 0,
                            ListIterObj (Some 0) 0] 2)) 1)
     = map (\<lambda>v. Inr (Some v)) (take 1 [15, 35, 80])
       @ replicate (1 - length [15, 35, 80 :: int]) (Inr None)"
    by (simp only: lenl il il2 snd_conv Suc_1)
  then have "fst (py_nexts 1
          (snd (py_nexts 1 [ListObj [15, 35, 80], ListIterObj (Some 0) 0,
                            ListIterObj (Some 0) 0] 2)) 1)
     = [Inr (Some 15)]"
    by simp
  ultimately show ?thesis using ch ia na ib nb chl by simp
qed

text \<open>
  \<^bold>\<open>C8.\<close>  Delegating with \<open>yield from\<close> and re-yielding each element of the child in
  a \<open>for\<close> loop are the same generator: for every child \<open>g\<close> the loop
  \<open>for x in g: yield x\<close> behaves as \<open>yield from g\<close>, so \<open>animate_composed\<close> is \<open>animate\<close>
  and \<open>fast\<close> is \<open>slow\<close>, call of \<open>next\<close> by call of \<open>next\<close> and consumed whole.
\<close>

theorem yield_from_equals_manual_delegation:
  "for_gen g (\<lambda>x. yield x) = yield_from g
 \<and> animate_composed = animate
 \<and> fast = slow
 \<and> nexts n animate_composed = nexts n animate
 \<and> nexts n fast = nexts n slow
 \<and> run animate_composed = run animate
 \<and> run fast = run slow"
proof -
  have a: "animate_composed = animate"
    by (simp add: animate_composed_def animate_def for_gen_yield)
  have f: "fast = slow"
    by (simp add: fast_def slow_def for_gen_yield)
  show ?thesis
    using a f for_gen_yield [of g] by simp
qed

text \<open>
  \<^bold>\<open>C9\<close> as the code has it.  \<open>normalize_copy\<close> first drains its argument into a new
  list object, whatever the argument is, and computes on that list: it is \<open>normalize\<close>
  run on the new list.  For an iterator with the values \<open>xs\<close> left it returns what
  \<open>normalize\<close> returns for a container holding \<open>xs\<close> (the same percentages, or the same
  exception); it leaves the iterator exhausted, the new list \<open>xs\<close> at the first new
  address, and every other object as it was.  A container is copied too:
  \<open>normalize_copy\<close> leaves a second list object with the values \<open>xs\<close> in the store, the
  container itself and every other object of the store as they were, and its result is
  that of \<open>normalize\<close> on the container.
\<close>

theorem normalize_copy_buffers_every_source:
  assumes "cursor_yields h it xs" and "container_holds w' h' c xs"
  shows "fst (normalize_copy w h it) = fst (normalize w' h' c)
       \<and> fst (normalize_copy w' h' c) = fst (normalize w' h' c)
       \<and> (\<exists>l h0. py_list w h it = (Inr l, h0) \<and> length h \<le> l
             \<and> lookup h0 l = Some (ListObj xs))
       \<and> (\<exists>l h0. py_list w' h' c = (Inr l, h0) \<and> length h' \<le> l
             \<and> lookup h0 l = Some (ListObj xs) \<and> lookup h0 c = lookup h' c)
       \<and> (\<exists>ob. is_cursor ob
             \<and> normalize_copy w h it = normalize w (h[it := ob] @ [ListObj xs]) (length h))
       \<and> length (snd (normalize_copy w h it)) = length h + 3
       \<and> lookup (snd (normalize_copy w h it)) (length h) = Some (ListObj xs)
       \<and> cursor_yields (snd (normalize_copy w h it)) it []
       \<and> (\<forall>a. a < length h \<and> a \<noteq> it \<longrightarrow>
             lookup (snd (normalize_copy w h it)) a = lookup h a)
       \<and> (\<exists>ob. is_cursor ob
             \<and> normalize_copy w' h' c
                 = normalize w' (h' @ [ob, ListObj xs]) (Suc (length h')))
       \<and> length (snd (normalize_copy w' h' c)) = length h' + 4
       \<and> lookup (snd (normalize_copy w' h' c)) (Suc (length h')) = Some (ListObj xs)
       \<and> lookup (snd (normalize_copy w' h' c)) c = lookup h' c
       \<and> (\<forall>a. a < length h' \<longrightarrow> lookup (snd (normalize_copy w' h' c)) a = lookup h' a)"
proof -
  from py_list_cursor [OF assms(1), of w] obtain l1 h1 where
    p1: "py_list w h it = (Inr l1, h1)" by blast
  from py_list_container [OF assms(2)] obtain l2 h2 where
    p2: "py_list w' h' c = (Inr l2, h2)" by blast
  from py_list_gives_container [OF p1 disjI1 [OF assms(1)]] have
    g1: "length h \<le> l1" "lookup h1 l1 = Some (ListObj xs)" "container_holds w h1 l1 xs"
    by simp_all
  from py_list_gives_container [OF p2 disjI2 [OF assms(2)]] assms(2) have
    g2: "length h' \<le> l2" "lookup h2 l2 = Some (ListObj xs)" "container_holds w' h2 l2 xs"
      "lookup h2 c = lookup h' c"
    by simp_all
  have "fst (normalize_copy w h it) = fst (normalize w h1 l1)"
    by (simp add: normalize_copy_unfold p1)
  also have "\<dots> = fst (normalize w' h' c)"
    by (simp add: normalize_container_fst [OF g1(3)] normalize_container_fst [OF assms(2)])
  finally have a: "fst (normalize_copy w h it) = fst (normalize w' h' c)" .
  have "fst (normalize_copy w' h' c) = fst (normalize w' h2 l2)"
    by (simp add: normalize_copy_unfold p2)
  also have "\<dots> = fst (normalize w' h' c)"
    by (simp add: normalize_container_fst [OF g2(3)] normalize_container_fst [OF assms(2)])
  finally have b: "fst (normalize_copy w' h' c) = fst (normalize w' h' c)" .
  have pl: "(\<exists>l h0. py_list w h it = (Inr l, h0) \<and> length h \<le> l
             \<and> lookup h0 l = Some (ListObj xs))
       \<and> (\<exists>l h0. py_list w' h' c = (Inr l, h0) \<and> length h' \<le> l
             \<and> lookup h0 l = Some (ListObj xs) \<and> lookup h0 c = lookup h' c)"
    using p1 p2 g1 g2 by blast
  from cursor_yields_is_cursor [OF assms(1)] have it: "it < length h"
    by (auto simp: lookup_Some_iff)
  from normalize_copy_cursor [OF assms(1), of w] obtain ob ob1 ob2 where
    ci: "is_cursor ob" and cy: "cursor_yields (h[it := ob]) it []"
    and ei: "normalize_copy w h it = normalize w (h[it := ob] @ [ListObj xs]) (length h)"
    and si: "snd (normalize_copy w h it) = h[it := ob] @ [ListObj xs, ob1, ob2]"
    by blast
  have i1: "\<exists>ob. is_cursor ob
      \<and> normalize_copy w h it = normalize w (h[it := ob] @ [ListObj xs]) (length h)"
    using ci ei by blast
  have i2: "length (snd (normalize_copy w h it)) = length h + 3"
    by (simp add: si)
  have i3: "lookup (snd (normalize_copy w h it)) (length h) = Some (ListObj xs)"
    by (simp add: si lookup_def nth_append)
  have i4: "cursor_yields (snd (normalize_copy w h it)) it []"
    unfolding si using cy by (rule cursor_yields_append)
  have i5: "\<forall>a. a < length h \<and> a \<noteq> it \<longrightarrow>
      lookup (snd (normalize_copy w h it)) a = lookup h a"
    by (simp add: si lookup_def nth_append)
  from normalize_copy_container [OF assms(2)] obtain ob' ob1' ob2' where
    cc: "is_cursor ob'"
    and ec: "normalize_copy w' h' c = normalize w' (h' @ [ob', ListObj xs]) (Suc (length h'))"
    and sc: "snd (normalize_copy w' h' c) = h' @ [ob', ListObj xs, ob1', ob2']"
    by blast
  from assms(2) have clt: "c < length h'" by (rule container_holds_lt)
  have c1: "\<exists>ob. is_cursor ob
      \<and> normalize_copy w' h' c = normalize w' (h' @ [ob, ListObj xs]) (Suc (length h'))"
    using cc ec by blast
  have c2: "length (snd (normalize_copy w' h' c)) = length h' + 4"
    by (simp add: sc)
  have c3: "lookup (snd (normalize_copy w' h' c)) (Suc (length h')) = Some (ListObj xs)"
    by (simp add: sc lookup_def nth_append)
  have c5: "\<forall>a. a < length h' \<longrightarrow> lookup (snd (normalize_copy w' h' c)) a = lookup h' a"
    by (simp add: sc lookup_def nth_append)
  with clt have c4: "lookup (snd (normalize_copy w' h' c)) c = lookup h' c" by blast
  from a b pl i1 i2 i3 i4 i5 c1 c2 c3 c4 c5 show ?thesis
    by (intro conjI) (erule conjunct1 | erule conjunct2 | assumption)+
qed

theorem normalize_copy_buffers_every_source_witness:
  "cursor_yields [GenObj (read_values sample_world ''../data/values.txt'')] 0 [15, 35, 80]
 \<and> container_holds sample_world [ListObj [15, 35, 80]] 0 [15, 35, 80]
 \<and> fst (normalize_copy sample_world
           [GenObj (read_values sample_world ''../data/values.txt'')] 0)
     = fst (normalize sample_world [ListObj [15, 35, 80]] 0)
 \<and> fst (normalize_copy sample_world [ListObj [15, 35, 80]] 0)
     = fst (normalize sample_world [ListObj [15, 35, 80]] 0)
 \<and> length (snd (normalize_copy sample_world [ListObj [15, 35, 80]] 0)) = 5
 \<and> lookup (snd (normalize_copy sample_world [ListObj [15, 35, 80]] 0)) 2
     = Some (ListObj [15, 35, 80])
 \<and> lookup (snd (normalize_copy sample_world [ListObj [15, 35, 80]] 0)) 0
     = Some (ListObj [15, 35, 80])
 \<and> length (snd (normalize_copy sample_world
           [GenObj (read_values sample_world ''../data/values.txt'')] 0)) = 4
 \<and> lookup (snd (normalize_copy sample_world
           [GenObj (read_values sample_world ''../data/values.txt'')] 0)) 1
     = Some (ListObj [15, 35, 80])
 \<and> cursor_yields (snd (normalize_copy sample_world
           [GenObj (read_values sample_world ''../data/values.txt'')] 0)) 0 []"
proof -
  have cy: "cursor_yields [GenObj (read_values sample_world ''../data/values.txt'')] 0
              [15, 35, 80]"
    by code_simp
  have ch: "container_holds sample_world [ListObj [15, 35, 80]] 0 [15, 35, 80]"
    by (simp add: container_holds_def lookup_def)
  have l0: "lookup [ListObj [15, 35, 80]] 0 = Some (ListObj [15, 35, 80])"
    by (simp add: lookup_def)
  from normalize_copy_buffers_every_source [OF cy ch, of sample_world] cy ch l0
  show ?thesis by (simp add: numeral_2_eq_2)
qed

text \<open>
  The claim as written says that a container input is not buffered again.  It is:
  for the list \<open>[15, 35, 80]\<close> at address 0, \<open>list(numbers)\<close> inside \<open>normalize_copy\<close>
  makes the list iterator at address 1 and a second list \<open>[15, 35, 80]\<close> at address 2,
  and \<open>numbers_copy\<close> is that new list, not the container: the rest of
  \<open>normalize_copy\<close> runs on address 2.
\<close>

theorem normalize_copy_container_counterexample:
  "container_holds sample_world [ListObj [15, 35, 80]] 0 [15, 35, 80]
 \<and> py_list sample_world [ListObj [15, 35, 80]] 0
     = (Inr 2, [ListObj [15, 35, 80], ListIterObj None 3, ListObj [15, 35, 80]])
 \<and> normalize_copy sample_world [ListObj [15, 35, 80]] 0
     = normalize sample_world
         [ListObj [15, 35, 80], ListIterObj None 3, ListObj [15, 35, 80]] 2"
proof -
  have pl: "py_list sample_world [ListObj [15, 35, 80]] 0
     = (Inr 2, [ListObj [15, 35, 80], ListIterObj None 3, ListObj [15, 35, 80]])"
    by code_simp
  show ?thesis
    by (simp add: normalize_copy_unfold pl container_holds_def lookup_def)
qed

text \<open>
  \<^bold>\<open>C10.\<close>  The undefended \<open>normalize\<close>, given a bare iterator that has the values
  \<open>xs\<close> left (in particular a non-empty \<open>xs\<close> with a total that is not zero), raises
  nothing and returns the empty list: \<open>sum\<close> computes the total of \<open>xs\<close> and leaves the
  iterator exhausted, so the loop that follows sees no value.
\<close>

theorem normalize_on_iterator_returns_empty:
  assumes "cursor_yields h it xs"
  shows "fst (normalize w h it) = Inr []
       \<and> fst (py_sum w h it) = Inr (sum_list xs)
       \<and> cursor_yields (snd (py_sum w h it)) it []
       \<and> cursor_yields (snd (normalize w h it)) it []"
proof -
  from py_sum_cursor [OF assms, of w] normalize_cursor [OF assms, of w]
  show ?thesis by auto
qed

theorem normalize_on_iterator_returns_empty_witness:
  "cursor_yields [GenObj (read_values sample_world ''../data/values.txt'')] 0 [15, 35, 80]
 \<and> [15, 35, 80 :: int] \<noteq> []
 \<and> sum_list [15, 35, 80 :: int] \<noteq> 0
 \<and> fst (normalize sample_world [GenObj (read_values sample_world ''../data/values.txt'')] 0)
     = Inr []
 \<and> fst (py_sum sample_world [GenObj (read_values sample_world ''../data/values.txt'')] 0)
     = Inr 130"
proof -
  have cy: "cursor_yields [GenObj (read_values sample_world ''../data/values.txt'')] 0
              [15, 35, 80]"
    by code_simp
  from normalize_on_iterator_returns_empty [OF cy, of sample_world] cy
  show ?thesis by simp
qed

section \<open>Further properties of the notebooks\<close>

text \<open>
  \<^bold>\<open>X1.\<close>  The generator version of the word index yields exactly the list the
  list version returns: \<open>list(index_words_iter(text))\<close> is \<open>index_words(text)\<close> for every
  text.
\<close>

theorem index_words_iter_lists_index_words:
  "drain (index_words_iter text) = Inr (index_words text)
 \<and> index_words ''Four score and seven'' = [0, 5, 11, 15]"
proof -
  have "index_words ''Four score and seven'' = [0, 5, 11, 15]"
    by code_simp
  with drain_index_words_iter [of "text"] show ?thesis by simp
qed

text \<open>
  \<^bold>\<open>X2.\<close>  The demonstration of Item 30: with \<open>it = index_words_iter(text)\<close>, the first
  \<open>list(it)\<close> is the whole word index and the second \<open>list(it)\<close> is the empty list.
\<close>

theorem index_words_iter_second_list_is_empty:
  "let it = length h; h1 = h @ [GenObj (index_words_iter text)]
   in \<exists>l1 h2 l2 h3.
        py_list w h1 it = (Inr l1, h2) \<and> lookup h2 l1 = Some (ListObj (index_words text))
      \<and> py_list w h2 it = (Inr l2, h3) \<and> lookup h3 l2 = Some (ListObj [])"
proof -
  let ?it = "length h" and ?h1 = "h @ [GenObj (index_words_iter text)]"
  have cy: "cursor_yields ?h1 ?it (index_words text)"
    by (simp add: cursor_yields_def lookup_append drain_index_words_iter)
  from py_list_cursor [OF cy, of w] obtain ob where
    p1: "py_list w ?h1 ?it = (Inr (length ?h1), ?h1[?it := ob] @ [ListObj (index_words text)])"
    and cy1: "cursor_yields (?h1[?it := ob]) ?it []"
    by blast
  let ?h2 = "?h1[?it := ob] @ [ListObj (index_words text)]"
  have l1: "lookup ?h2 (length ?h1) = Some (ListObj (index_words text))"
    by (simp add: lookup_def nth_append)
  have cy2: "cursor_yields ?h2 ?it []"
    using cy1 by (rule cursor_yields_append)
  from py_list_cursor [OF cy2, of w] obtain ob' where
    p2: "py_list w ?h2 ?it = (Inr (length ?h2), ?h2[?it := ob'] @ [ListObj []])"
    by blast
  have l2: "lookup (?h2[?it := ob'] @ [ListObj []]) (length ?h2) = Some (ListObj [])"
    by (simp add: lookup_def nth_append)
  from p1 l1 p2 l2 show ?thesis unfolding Let_def by blast
qed

text \<open>
  \<^bold>\<open>X3.\<close>  The assertion of the notebook: for \<open>values = [15, 35, 80]\<close>,
  \<open>sum(normalize(values)) == 100.0\<close> holds in float arithmetic, each addition rounded to
  the nearest float.
\<close>

theorem notebook_assertion_sum_is_100:
  "\<exists>percentages. fst (normalize w [ListObj [15, 35, 80]] 0) = Inr percentages
     \<and> py_sum_floats percentages = Some 100"
proof -
  have "py_sum_floats [6495576385630523 / 562949953421312,
            7578172449902277 / 281474976710656,
            8660768514174031 / 140737488355328] = Some 100"
    by (simp add: py_sum_floats_def float_add_first float_add_second float_add_third)
  with normalize_15_35_80 [of w] show ?thesis by blast
qed

text \<open>
  \<^bold>\<open>X4.\<close>  \<open>normalize_defensive\<close> lets a container through: for a list or a
  \<open>ReadValues\<close> instance it returns what \<open>normalize\<close> returns.
\<close>

theorem normalize_defensive_accepts_container:
  assumes "container_holds w h c xs"
  shows "fst (normalize_defensive w h c) = fst (normalize w h c)"
  using assms by (rule normalize_defensive_container)

theorem normalize_defensive_accepts_container_witness:
  "container_holds sample_world [ReadValuesObj ''../data/values.txt''] 0 [15, 35, 80]
 \<and> fst (normalize_defensive sample_world [ReadValuesObj ''../data/values.txt''] 0)
     = fst (normalize sample_world [ReadValuesObj ''../data/values.txt''] 0)"
proof -
  have ch: "container_holds sample_world [ReadValuesObj ''../data/values.txt''] 0 [15, 35, 80]"
    by code_simp
  from normalize_defensive_accepts_container [OF ch] ch show ?thesis by simp
qed

text \<open>
  \<^bold>\<open>X5.\<close>  \<open>normalize_func(lambda: read_values(path))\<close>: given a function that makes
  a new generator over the file at each call, \<open>normalize_func\<close> returns what \<open>normalize\<close>
  returns for a container holding the values of the file.
\<close>

theorem normalize_func_with_fresh_iterators:
  assumes "drain (read_values w p) = Inr xs" and "container_holds w' h' c xs"
  shows "fst (normalize_func w (read_values_call w p) h) = fst (normalize w' h' c)"
  using normalize_func_read_values [OF assms(1), of h] normalize_container_fst [OF assms(2)]
  by simp

theorem normalize_func_with_fresh_iterators_witness:
  "drain (read_values sample_world ''../data/values.txt'') = Inr [15, 35, 80]
 \<and> container_holds sample_world [ListObj [15, 35, 80]] 0 [15, 35, 80]
 \<and> fst (normalize_func sample_world (read_values_call sample_world ''../data/values.txt'') [])
     = fst (normalize sample_world [ListObj [15, 35, 80]] 0)"
proof -
  have d: "drain (read_values sample_world ''../data/values.txt'') = Inr [15, 35, 80]"
    by code_simp
  have ch: "container_holds sample_world [ListObj [15, 35, 80]] 0 [15, 35, 80]"
    by (simp add: container_holds_def lookup_def)
  from normalize_func_with_fresh_iterators [OF d ch, of "[]"] d ch show ?thesis by simp
qed

end
